theory Spec2Isabelle
  imports Main "HOL-Library.Signed_Division"
begin

unbundle bit_operations_syntax

section \<open>Constants and basic types of kilo.c\<close>

text \<open>
  The C type \<open>int\<close> has 32 bits. A value of type \<open>int\<close> is an integer; in the row
  operations and the loader, where the values grow with the bytes of the file (\<open>rx\<close>,
  \<open>tabs\<close>, the size of the \<open>render\<close> buffer, \<open>idx\<close>, \<open>numrows\<close>), an operation whose
  result leaves the range of \<open>int\<close> is a fault (signed overflow has no defined behaviour
  in C), and so is the counter of the page loop that is decremented below the least
  \<open>int\<close>. The arithmetic on the cursor and the offsets is on the integers: the
  statements about it are about executions in which it stays in the range of \<open>int\<close>.
  The operator \<open>%\<close> of C truncates towards zero, which is \<open>smod\<close>. A byte is a
  \<open>char\<close>.
\<close>

definition INT_MAX :: int where
  "INT_MAX = 2147483647"

definition INT_MIN :: int where
  "INT_MIN = - 2147483648"

definition KILO_TAB_STOP :: int where
  "KILO_TAB_STOP = 8"

definition CTRL_KEY :: "int \<Rightarrow> int" where
  "CTRL_KEY k = k AND 0x1f"

text \<open>\<open>enum editorKey\<close>: the first enumerator is 1000, the others count up from it.\<close>

definition ARROW_LEFT :: int where "ARROW_LEFT = 1000"
definition ARROW_RIGHT :: int where "ARROW_RIGHT = 1001"
definition ARROW_UP :: int where "ARROW_UP = 1002"
definition ARROW_DOWN :: int where "ARROW_DOWN = 1003"
definition DEL_KEY :: int where "DEL_KEY = 1004"
definition HOME_KEY :: int where "HOME_KEY = 1005"
definition END_KEY :: int where "END_KEY = 1006"
definition PAGE_UP :: int where "PAGE_UP = 1007"
definition PAGE_DOWN :: int where "PAGE_DOWN = 1008"

definition TAB :: char where "TAB = CHR 0x09"
definition LF :: char where "LF = CHR 0x0A"
definition CR :: char where "CR = CHR 0x0D"
definition ESC :: char where "ESC = CHR 0x1B"
definition NUL :: char where "NUL = CHR 0x00"

text \<open>A \<open>char\<close> converted to \<open>int\<close>, with \<open>char\<close> a signed type.\<close>

definition char_int :: "char \<Rightarrow> int" where
  "char_int c = (if (of_char c :: int) < 128 then of_char c else of_char c - 256)"

text \<open>
  What ends a call other than a normal return: a read or write outside an allocated
  buffer (no defined behaviour in C), \<open>die\<close> (which prints and calls \<open>exit(1)\<close>),
  a loop counter that is decremented below the least \<open>int\<close>, \<open>exit\<close> with a status,
  and a read loop that waits for input that never comes.
\<close>

datatype error = Out_Of_Bounds | Int_Overflow | Die string | Exit int | No_Input

type_synonym 'a result = "error + 'a"

text \<open>The result of an operation on \<open>int\<close>, given its value on the integers.\<close>

definition int_op :: "int \<Rightarrow> int result" where
  "int_op v = (if INT_MIN \<le> v \<and> v \<le> INT_MAX then Inr v else Inl Int_Overflow)"

text \<open>
  A \<open>size_t\<close> stored in an \<open>int\<close>: the low 32 bits, read in two's complement.
\<close>

definition int_of_size_t :: "nat \<Rightarrow> int" where
  "int_of_size_t n =
     (let m = int n mod 4294967296 in if m \<le> INT_MAX then m else m - 4294967296)"

text \<open>
  \<open>typedef struct erow\<close>. The buffer \<open>chars\<close> holds the bytes of the line and, after
  them, a terminating NUL byte that the list leaves out; \<open>render\<close> likewise. The
  field \<open>size\<close> of the source is \<open>size_erow\<close> here.
\<close>

record erow =
  size_erow :: int
  rsize :: int
  chars :: string
  render :: string

text \<open>
  \<open>struct editorConfig\<close>, without the saved terminal attributes. \<open>row\<close> is the array
  of rows, \<open>filename\<close> is \<open>None\<close> for the NULL pointer.
\<close>

record editorConfig =
  cx :: int
  cy :: int
  rx :: int
  rowoff :: int
  coloff :: int
  screenRows :: int
  screenCols :: int
  numrows :: int
  row :: "erow list"
  filename :: "string option"
  status_msg :: string
  statusmsg_time :: int

text \<open>
  Reading \<open>buf[j]\<close> where \<open>buf\<close> is a NUL-terminated buffer that holds the bytes \<open>s\<close>:
  index \<open>length s\<close> is the terminator, anything else outside the bytes is outside the
  buffer.
\<close>

definition byte_at :: "string \<Rightarrow> int \<Rightarrow> char result" where
  "byte_at s j =
     (if 0 \<le> j \<and> j < int (length s) then Inr (s ! nat j)
      else if j = int (length s) then Inr NUL
      else Inl Out_Of_Bounds)"

section \<open>Row operations\<close>

text \<open>
  \<open>editorRowCxToRx\<close>: the loop \<open>for (j = 0; j < cx; j++)\<close> with the loop variables
  \<open>j\<close> and \<open>rx\<close> as arguments. The body is \<open>rx += (KILO_TAB_STOP - 1) - (rx %
  KILO_TAB_STOP)\<close> on a tab, then \<open>rx++\<close>; \<open>j\<close> stays below \<open>cx\<close>.
\<close>

function editorRowCxToRx_loop :: "erow \<Rightarrow> int \<Rightarrow> int \<Rightarrow> int \<Rightarrow> int result" where
  "editorRowCxToRx_loop r cx' j rx' =
     (if j < cx' then
        (case byte_at (chars r) j of
           Inl e \<Rightarrow> Inl e
         | Inr c \<Rightarrow>
             (case (if c = TAB
                    then int_op (rx' + ((KILO_TAB_STOP - 1) - (rx' smod KILO_TAB_STOP)))
                    else Inr rx') of
                Inl e \<Rightarrow> Inl e
              | Inr rx1 \<Rightarrow>
                  (case int_op (rx1 + 1) of
                     Inl e \<Rightarrow> Inl e
                   | Inr rx2 \<Rightarrow> editorRowCxToRx_loop r cx' (j + 1) rx2)))
      else Inr rx')"
  by pat_completeness auto
termination
  by (relation "measure (\<lambda>(r, cx', j, rx'). nat (cx' - j))") auto

declare editorRowCxToRx_loop.simps [simp del]

definition editorRowCxToRx :: "erow \<Rightarrow> int \<Rightarrow> int result" where
  "editorRowCxToRx r cx' = editorRowCxToRx_loop r cx' 0 0"

text \<open>
  \<open>editorUpdateRow\<close>. The first loop counts the tabs; the buffer \<open>render\<close> is then
  allocated with \<open>size + tabs * (KILO_TAB_STOP - 1) + 1\<close> bytes, a number computed in
  \<open>int\<close>, and a write at an index outside it is a fault (\<open>malloc\<close> gives no buffer for
  a size that is not positive, and is taken to give one otherwise). The bytes are
  written at \<open>idx = 0, 1, 2, ...\<close> in this order, so the written part of the buffer is a
  list that grows at its end. \<open>render_put\<close> is \<open>row->render[idx++] = c\<close>.
\<close>

function editorUpdateRow_tabs :: "erow \<Rightarrow> int \<Rightarrow> int \<Rightarrow> int result" where
  "editorUpdateRow_tabs r j tabs =
     (if j < size_erow r then
        (case byte_at (chars r) j of
           Inl e \<Rightarrow> Inl e
         | Inr c \<Rightarrow>
             (case (if c = TAB then int_op (tabs + 1) else Inr tabs) of
                Inl e \<Rightarrow> Inl e
              | Inr tabs1 \<Rightarrow> editorUpdateRow_tabs r (j + 1) tabs1))
      else Inr tabs)"
  by pat_completeness auto
termination
  by (relation "measure (\<lambda>(r, j, tabs). nat (size_erow r - j))") auto

declare editorUpdateRow_tabs.simps [simp del]

definition render_put :: "int \<Rightarrow> int \<Rightarrow> string \<Rightarrow> char \<Rightarrow> (int \<times> string) result" where
  "render_put cap idx buf c =
     (if 0 \<le> idx \<and> idx < cap
      then (case int_op (idx + 1) of
              Inl e \<Rightarrow> Inl e
            | Inr idx1 \<Rightarrow> Inr (idx1, buf @ [c]))
      else Inl Out_Of_Bounds)"

text \<open>The inner loop \<open>while (idx % KILO_TAB_STOP != 0) row->render[idx++] = ' '\<close>.\<close>

function editorUpdateRow_pad :: "int \<Rightarrow> int \<Rightarrow> string \<Rightarrow> (int \<times> string) result" where
  "editorUpdateRow_pad cap idx buf =
     (if idx smod KILO_TAB_STOP \<noteq> 0 then
        (case render_put cap idx buf (CHR '' '') of
           Inl e \<Rightarrow> Inl e
         | Inr (idx1, buf1) \<Rightarrow> editorUpdateRow_pad cap idx1 buf1)
      else Inr (idx, buf))"
  by pat_completeness auto
termination
  by (relation "measure (\<lambda>(cap, idx, buf). nat (cap - idx))")
    (auto simp: render_put_def int_op_def split: if_splits)

declare editorUpdateRow_pad.simps [simp del]

text \<open>The second loop over \<open>j\<close>, which fills \<open>render\<close>.\<close>

function editorUpdateRow_fill ::
  "erow \<Rightarrow> int \<Rightarrow> int \<Rightarrow> int \<Rightarrow> string \<Rightarrow> (int \<times> string) result" where
  "editorUpdateRow_fill r cap j idx buf =
     (if j < size_erow r then
        (case byte_at (chars r) j of
           Inl e \<Rightarrow> Inl e
         | Inr c \<Rightarrow>
             if c = TAB then
               (case render_put cap idx buf (CHR '' '') of
                  Inl e \<Rightarrow> Inl e
                | Inr (idx1, buf1) \<Rightarrow>
                    (case editorUpdateRow_pad cap idx1 buf1 of
                       Inl e \<Rightarrow> Inl e
                     | Inr (idx2, buf2) \<Rightarrow> editorUpdateRow_fill r cap (j + 1) idx2 buf2))
             else
               (case render_put cap idx buf c of
                  Inl e \<Rightarrow> Inl e
                | Inr (idx1, buf1) \<Rightarrow> editorUpdateRow_fill r cap (j + 1) idx1 buf1))
      else Inr (idx, buf))"
  by pat_completeness auto
termination
  by (relation "measure (\<lambda>(r, cap, j, idx, buf). nat (size_erow r - j))") auto

declare editorUpdateRow_fill.simps [simp del]

definition editorUpdateRow :: "erow \<Rightarrow> erow result" where
  "editorUpdateRow r =
     (case editorUpdateRow_tabs r 0 0 of
        Inl e \<Rightarrow> Inl e
      | Inr tabs \<Rightarrow>
          (case int_op (tabs * (KILO_TAB_STOP - 1)) of
             Inl e \<Rightarrow> Inl e
           | Inr extra \<Rightarrow>
               (case int_op (size_erow r + extra) of
                  Inl e \<Rightarrow> Inl e
                | Inr bytes \<Rightarrow>
                    (case int_op (bytes + 1) of
                       Inl e \<Rightarrow> Inl e
                     | Inr cap \<Rightarrow>
                         (case editorUpdateRow_fill r cap 0 0 [] of
                            Inl e \<Rightarrow> Inl e
                          | Inr (idx, buf) \<Rightarrow>
                              if 0 \<le> idx \<and> idx < cap
                              then Inr (r\<lparr>render := buf, rsize := idx\<rparr>)
                              else Inl Out_Of_Bounds)))))"

text \<open>
  \<open>editorAppendRow\<close>: \<open>s\<close> is the caller's buffer, \<open>len\<close> (a \<open>size_t\<close>) the number
  of bytes that \<open>memcpy\<close> takes from it. The array \<open>E.row\<close> is reallocated to
  \<open>numrows + 1\<close> elements and the new row is written at index \<open>numrows\<close>; its \<open>size\<close>
  is \<open>len\<close> stored in an \<open>int\<close>.
\<close>

definition editorAppendRow :: "string \<Rightarrow> nat \<Rightarrow> editorConfig \<Rightarrow> editorConfig result" where
  "editorAppendRow s len E =
     (if numrows E < 0 \<or> int (length (row E)) < numrows E then Inl Out_Of_Bounds
      else if length s < len then Inl Out_Of_Bounds
      else
        (case int_op (numrows E + 1) of
           Inl e \<Rightarrow> Inl e
         | Inr n \<Rightarrow>
             (case editorUpdateRow
                     \<lparr>size_erow = int_of_size_t len, rsize = 0, chars = take len s, render = []\<rparr> of
                Inl e \<Rightarrow> Inl e
              | Inr r \<Rightarrow> Inr (E\<lparr>row := take (nat (numrows E)) (row E) @ [r], numrows := n\<rparr>))))"

section \<open>File input\<close>

text \<open>
  \<open>getline\<close> of the C library on the unread bytes of the stream: at end of file it
  returns -1 (\<open>None\<close>); otherwise it returns the bytes up to and including the next
  line feed, or all remaining bytes when there is none, and the stream after them.
\<close>

fun getline :: "string \<Rightarrow> (string \<times> string) option" where
  "getline [] = None"
| "getline (c # cs) =
     (if c = LF then Some ([c], cs)
      else (case getline cs of
              None \<Rightarrow> Some ([c], [])
            | Some (l, rest) \<Rightarrow> Some (c # l, rest)))"

text \<open>
  The loop \<open>while (linelen > 0 && (line[linelen - 1] == '\n' || line[linelen - 1] == '\r'))
  linelen--\<close>.
\<close>

function editorOpen_strip :: "string \<Rightarrow> int \<Rightarrow> int result" where
  "editorOpen_strip line linelen =
     (if linelen > 0 then
        (case byte_at line (linelen - 1) of
           Inl e \<Rightarrow> Inl e
         | Inr c \<Rightarrow>
             if c = LF \<or> c = CR then editorOpen_strip line (linelen - 1)
             else Inr linelen)
      else Inr linelen)"
  by pat_completeness auto
termination
  by (relation "measure (\<lambda>(line, linelen). nat linelen)") auto

declare editorOpen_strip.simps [simp del]

text \<open>The loop \<open>while ((linelen = getline(&line, &linecap, fp)) != -1)\<close>.\<close>

function editorOpen_loop :: "string \<Rightarrow> editorConfig \<Rightarrow> editorConfig result" where
  "editorOpen_loop fp E =
     (case getline fp of
        None \<Rightarrow> Inr E
      | Some (line, fp') \<Rightarrow>
          (case editorOpen_strip line (int (length line)) of
             Inl e \<Rightarrow> Inl e
           | Inr linelen \<Rightarrow>
               (case editorAppendRow line (nat linelen) E of
                  Inl e \<Rightarrow> Inl e
                | Inr E' \<Rightarrow> editorOpen_loop fp' E')))"
  by pat_completeness auto
termination
proof (relation "measure (\<lambda>(fp, E). length fp)")
  have shorter: "getline fp = Some (line, fp') \<Longrightarrow> length fp' < length fp"
    for fp line fp'
    by (induction fp arbitrary: line fp') (auto split: if_splits option.splits)
  fix fp :: string and E :: editorConfig and x2 line fp' linelen E'
  assume "getline fp = Some x2" and "(line, fp') = x2"
  then show "((fp', E'), (fp, E)) \<in> measure (\<lambda>(fp, E). length fp)"
    using shorter [of fp line fp'] by simp
qed simp

declare editorOpen_loop.simps [simp del]

text \<open>
  \<open>editorOpen\<close>: \<open>fopen\<close> is a lookup of the name in the files that can be opened
  for reading, and gives the bytes of the file.
\<close>

definition editorOpen :: "(string \<rightharpoonup> string) \<Rightarrow> string \<Rightarrow> editorConfig \<Rightarrow> editorConfig result" where
  "editorOpen fs name E =
     (case fs name of
        None \<Rightarrow> Inl (Die ''fopen'')
      | Some bytes \<Rightarrow> editorOpen_loop bytes (E\<lparr>filename := Some name\<rparr>))"

section \<open>Initialisation\<close>

text \<open>
  \<open>initEditor\<close>: the argument is what \<open>getWindowSize\<close> reports, \<open>None\<close> when it
  returns -1, otherwise the rows and columns of the terminal.
\<close>

definition initEditor :: "(int \<times> int) option \<Rightarrow> editorConfig result" where
  "initEditor ws =
     (case ws of
        None \<Rightarrow> Inl (Die ''getWindowSize'')
      | Some (rows, cols) \<Rightarrow>
          Inr \<lparr>cx = 0, cy = 0, rx = 0, rowoff = 0, coloff = 0,
               screenRows = rows - 2, screenCols = cols,
               numrows = 0, row = [], filename = None,
               status_msg = [], statusmsg_time = 0\<rparr>)"

section \<open>Scrolling\<close>

text \<open>\<open>E.row[i]\<close> read as a value: the array has the elements of the list.\<close>

definition row_at :: "editorConfig \<Rightarrow> int \<Rightarrow> erow result" where
  "row_at E i =
     (if 0 \<le> i \<and> i < int (length (row E)) then Inr (row E ! nat i)
      else Inl Out_Of_Bounds)"

definition editorScroll :: "editorConfig \<Rightarrow> editorConfig result" where
  "editorScroll E =
     (case (if cy E < numrows E
            then (case row_at E (cy E) of
                    Inl e \<Rightarrow> Inl e
                  | Inr r \<Rightarrow> editorRowCxToRx r (cx E))
            else Inr 0) of
        Inl e \<Rightarrow> Inl e
      | Inr rx1 \<Rightarrow>
          (let E1 = E\<lparr>rx := rx1\<rparr>;
               E2 = (if cy E1 < rowoff E1 then E1\<lparr>rowoff := cy E1\<rparr> else E1);
               E3 = (if cy E2 \<ge> rowoff E2 + screenRows E2
                     then E2\<lparr>rowoff := cy E2 - screenRows E2 + 1\<rparr> else E2);
               E4 = (if rx E3 < coloff E3 then E3\<lparr>coloff := rx E3\<rparr> else E3);
               E5 = (if rx E4 \<ge> coloff E4 + screenCols E4
                     then E4\<lparr>coloff := rx E4 - screenCols E4 + 1\<rparr> else E4)
           in Inr E5))"

section \<open>Input\<close>

text \<open>
  \<open>editorMoveCursor\<close>. The local pointer \<open>row\<close> is NULL (\<open>None\<close>) or points at
  \<open>E.row[E.cy]\<close>; it is only dereferenced where the source reads \<open>row->size\<close>.
  First the \<open>switch\<close>, with \<open>row\<close> as computed on entry; then the clamp of \<open>E.cx\<close>
  with \<open>row\<close> computed again.
\<close>

definition row_ptr :: "editorConfig \<Rightarrow> int option" where
  "row_ptr E = (if cy E \<ge> numrows E then None else Some (cy E))"

definition editorMoveCursor_switch :: "int \<Rightarrow> editorConfig \<Rightarrow> editorConfig result" where
  "editorMoveCursor_switch key E =
     (if key = ARROW_LEFT then
        (if cx E \<noteq> 0 then Inr (E\<lparr>cx := cx E - 1\<rparr>)
         else if cy E > 0 then
           (case row_at E (cy E - 1) of
              Inl e \<Rightarrow> Inl e
            | Inr r \<Rightarrow> Inr (E\<lparr>cy := cy E - 1, cx := size_erow r\<rparr>))
         else Inr E)
      else if key = ARROW_RIGHT then
        (case row_ptr E of
           None \<Rightarrow> Inr E
         | Some i \<Rightarrow>
             (case row_at E i of
                Inl e \<Rightarrow> Inl e
              | Inr r \<Rightarrow>
                  if cx E < size_erow r then Inr (E\<lparr>cx := cx E + 1\<rparr>)
                  else if cx E = size_erow r then Inr (E\<lparr>cy := cy E + 1, cx := 0\<rparr>)
                  else Inr E))
      else if key = ARROW_UP then
        (if cy E \<noteq> 0 then Inr (E\<lparr>cy := cy E - 1\<rparr>) else Inr E)
      else if key = ARROW_DOWN then
        (if cy E < numrows E then Inr (E\<lparr>cy := cy E + 1\<rparr>) else Inr E)
      else Inr E)"

definition editorMoveCursor :: "int \<Rightarrow> editorConfig \<Rightarrow> editorConfig result" where
  "editorMoveCursor key E =
     (case editorMoveCursor_switch key E of
        Inl e \<Rightarrow> Inl e
      | Inr E1 \<Rightarrow>
          (case (case row_ptr E1 of
                   None \<Rightarrow> Inr 0
                 | Some i \<Rightarrow> (case row_at E1 i of Inl e \<Rightarrow> Inl e | Inr r \<Rightarrow> Inr (size_erow r))) of
             Inl e \<Rightarrow> Inl e
           | Inr rowlen \<Rightarrow> Inr (if cx E1 > rowlen then E1\<lparr>cx := rowlen\<rparr> else E1)))"

text \<open>
  The loop \<open>while (times--) editorMoveCursor(c == PAGE_UP ? ARROW_UP : ARROW_DOWN)\<close>.
  It ends when \<open>times\<close> is 0; otherwise \<open>times\<close> is decremented, which is a fault at
  the least \<open>int\<close>, and the move is made. From a negative \<open>times\<close> the counter only
  moves away from 0.
\<close>

function editorProcessKeypress_times :: "int \<Rightarrow> int \<Rightarrow> editorConfig \<Rightarrow> editorConfig result" where
  "editorProcessKeypress_times times' c E =
     (if times' = 0 then Inr E
      else if times' - 1 < INT_MIN then Inl Int_Overflow
      else
        (case editorMoveCursor (if c = PAGE_UP then ARROW_UP else ARROW_DOWN) E of
           Inl e \<Rightarrow> Inl e
         | Inr E' \<Rightarrow> editorProcessKeypress_times (times' - 1) c E'))"
  by pat_completeness auto
termination
  by (relation "measure (\<lambda>(times', c, E).
                  if 0 \<le> times' then nat times' else nat (times' - INT_MIN))")
    auto

declare editorProcessKeypress_times.simps [simp del]

text \<open>
  The \<open>switch\<close> of \<open>editorProcessKeypress\<close> on the key \<open>c\<close> that \<open>editorReadKey\<close>
  returned. \<open>CTRL_KEY('q')\<close> ends the process with status 0.
\<close>

definition editorProcessKeypress_switch :: "int \<Rightarrow> editorConfig \<Rightarrow> editorConfig result" where
  "editorProcessKeypress_switch c E =
     (if c = CTRL_KEY (char_int (CHR ''q'')) then Inl (Exit 0)
      else if c = HOME_KEY then Inr (E\<lparr>cx := 0\<rparr>)
      else if c = END_KEY then
        (if cy E < numrows E
         then (case row_at E (cy E) of
                 Inl e \<Rightarrow> Inl e
               | Inr r \<Rightarrow> Inr (E\<lparr>cx := size_erow r\<rparr>))
         else Inr E)
      else if c = PAGE_UP \<or> c = PAGE_DOWN then
        (let E1 = (if c = PAGE_UP then E\<lparr>cy := rowoff E\<rparr>
                   else if c = PAGE_DOWN then
                     (let E' = E\<lparr>cy := rowoff E + screenRows E - 1\<rparr>
                      in if cy E' > numrows E' then E'\<lparr>cy := numrows E'\<rparr> else E')
                   else E)
         in editorProcessKeypress_times (screenRows E1) c E1)
      else if c = ARROW_DOWN \<or> c = ARROW_UP \<or> c = ARROW_LEFT \<or> c = ARROW_RIGHT then
        editorMoveCursor c E
      else Inr E)"

section \<open>The key decoder\<close>

text \<open>
  Standard input is the list of the outcomes of the calls of \<open>read(STDIN_FILENO, &c, 1)\<close>
  to come: a byte, nothing within the timeout (\<open>read\<close> returns 0), -1 with
  \<open>errno = EAGAIN\<close>, or -1 with another \<open>errno\<close>. After the end of the list every
  read times out.
\<close>

datatype read_outcome = Byte char | Timeout | Again | Failure

text \<open>The loop \<open>while ((nread = read(STDIN_FILENO, &c, 1)) != 1)\<close>.\<close>

fun editorReadKey_wait :: "read_outcome list \<Rightarrow> (char \<times> read_outcome list) result" where
  "editorReadKey_wait [] = Inl No_Input"
| "editorReadKey_wait (Byte c # rest) = Inr (c, rest)"
| "editorReadKey_wait (Failure # rest) = Inl (Die ''read failure'')"
| "editorReadKey_wait (Timeout # rest) = editorReadKey_wait rest"
| "editorReadKey_wait (Again # rest) = editorReadKey_wait rest"

text \<open>One \<open>read(STDIN_FILENO, &seq[i], 1)\<close>, with \<open>None\<close> when it does not return 1.\<close>

fun read_seq :: "read_outcome list \<Rightarrow> char option \<times> read_outcome list" where
  "read_seq [] = (None, [])"
| "read_seq (Byte c # rest) = (Some c, rest)"
| "read_seq (_ # rest) = (None, rest)"

definition editorReadKey :: "read_outcome list \<Rightarrow> (int \<times> read_outcome list) result" where
  "editorReadKey inp =
     (case editorReadKey_wait inp of
        Inl e \<Rightarrow> Inl e
      | Inr (c, in1) \<Rightarrow>
          if c = ESC then
            (case read_seq in1 of
               (None, in2) \<Rightarrow> Inr (char_int ESC, in2)
             | (Some seq0, in2) \<Rightarrow>
                 (case read_seq in2 of
                    (None, in3) \<Rightarrow> Inr (char_int ESC, in3)
                  | (Some seq1, in3) \<Rightarrow>
                      if seq0 = CHR ''['' then
                        (if char_int seq1 \<ge> char_int (CHR ''0'') \<and> char_int seq1 \<le> char_int (CHR ''9'') then
                           (case read_seq in3 of
                              (None, in4) \<Rightarrow> Inr (char_int ESC, in4)
                            | (Some seq2, in4) \<Rightarrow>
                                if seq2 = CHR ''~'' then
                                  (if seq1 = CHR ''1'' then Inr (HOME_KEY, in4)
                                   else if seq1 = CHR ''3'' then Inr (DEL_KEY, in4)
                                   else if seq1 = CHR ''4'' then Inr (END_KEY, in4)
                                   else if seq1 = CHR ''5'' then Inr (PAGE_UP, in4)
                                   else if seq1 = CHR ''6'' then Inr (PAGE_DOWN, in4)
                                   else if seq1 = CHR ''7'' then Inr (HOME_KEY, in4)
                                   else if seq1 = CHR ''8'' then Inr (END_KEY, in4)
                                   else Inr (char_int ESC, in4))
                                else Inr (char_int ESC, in4))
                         else
                           (if seq1 = CHR ''A'' then Inr (ARROW_UP, in3)
                            else if seq1 = CHR ''B'' then Inr (ARROW_DOWN, in3)
                            else if seq1 = CHR ''C'' then Inr (ARROW_RIGHT, in3)
                            else if seq1 = CHR ''D'' then Inr (ARROW_LEFT, in3)
                            else if seq1 = CHR ''H'' then Inr (HOME_KEY, in3)
                            else if seq1 = CHR ''F'' then Inr (END_KEY, in3)
                            else Inr (char_int ESC, in3)))
                      else if seq0 = CHR ''O'' then
                        (if seq1 = CHR ''H'' then Inr (HOME_KEY, in3)
                         else if seq1 = CHR ''F'' then Inr (END_KEY, in3)
                         else Inr (char_int ESC, in3))
                      else Inr (char_int ESC, in3)))
          else Inr (char_int c, in1))"

text \<open>\<open>editorProcessKeypress\<close>: read a key, then the \<open>switch\<close>.\<close>

definition editorProcessKeypress ::
  "read_outcome list \<Rightarrow> editorConfig \<Rightarrow> (read_outcome list \<times> editorConfig) result" where
  "editorProcessKeypress inp E =
     (case editorReadKey inp of
        Inl e \<Rightarrow> Inl e
      | Inr (c, inp') \<Rightarrow>
          (case editorProcessKeypress_switch c E of
             Inl e \<Rightarrow> Inl e
           | Inr E' \<Rightarrow> Inr (inp', E')))"

section \<open>Notions used in the statements\<close>

text \<open>
  One step of the loop of \<open>editorRowCxToRx\<close> on the rendered column, one step of the
  second loop of \<open>editorUpdateRow\<close> on the bytes written so far, the number of tabs
  of a string, and the bytes of a row from index \<open>j\<close> up to its \<open>size\<close>.
\<close>

definition rx_step :: "char \<Rightarrow> int \<Rightarrow> int" where
  "rx_step c x =
     (if c = TAB then x + ((KILO_TAB_STOP - 1) - (x smod KILO_TAB_STOP)) else x) + 1"

definition render_step :: "char \<Rightarrow> string \<Rightarrow> string" where
  "render_step c buf =
     (if c = TAB
      then buf @ replicate (nat (KILO_TAB_STOP - int (length buf) mod KILO_TAB_STOP)) (CHR '' '')
      else buf @ [c])"

definition count_tabs :: "string \<Rightarrow> int" where
  "count_tabs s = int (length (filter (\<lambda>c. c = TAB) s))"

definition remaining :: "erow \<Rightarrow> int \<Rightarrow> string" where
  "remaining r j = drop (nat j) (take (nat (size_erow r)) (chars r))"

text \<open>
  The accessor \<open>cx_to_rx(i, cx)\<close> of the row store: \<open>editorRowCxToRx\<close> on row \<open>i\<close>.
\<close>

definition cx_to_rx :: "editorConfig \<Rightarrow> int \<Rightarrow> int \<Rightarrow> int result" where
  "cx_to_rx E i n = (case row_at E i of Inl e \<Rightarrow> Inl e | Inr r \<Rightarrow> editorRowCxToRx r n)"

text \<open>
  The scenario of the three-line file: the bytes of the file, a file system that holds it,
  and the start of \<open>main\<close> on it (\<open>initEditor\<close> on a terminal of 24 rows and 80
  columns, then \<open>editorOpen\<close>).
\<close>

definition scenario_file :: string where
  "scenario_file = [CHR ''a'', TAB, CHR ''b'', LF] @ ''short'' @ [LF] @ ''last'' @ [LF]"

definition scenario_fs :: "string \<rightharpoonup> string" where
  "scenario_fs = (\<lambda>name. if name = ''file.txt'' then Some scenario_file else None)"

definition scenario_state :: "editorConfig result" where
  "scenario_state =
     (case initEditor (Some (24, 80)) of
        Inl e \<Rightarrow> Inl e
      | Inr E \<Rightarrow> editorOpen scenario_fs ''file.txt'' E)"

definition scenario_loaded :: editorConfig where
  "scenario_loaded =
     \<lparr>cx = 0, cy = 0, rx = 0, rowoff = 0, coloff = 0, screenRows = 22, screenCols = 80,
      numrows = 3,
      row = [\<lparr>size_erow = 3, rsize = 9, chars = [CHR ''a'', TAB, CHR ''b''],
               render = ''a       b''\<rparr>,
             \<lparr>size_erow = 5, rsize = 5, chars = ''short'', render = ''short''\<rparr>,
             \<lparr>size_erow = 4, rsize = 4, chars = ''last'', render = ''last''\<rparr>],
      filename = Some ''file.txt'', status_msg = [], statusmsg_time = 0\<rparr>"

text \<open>The test \<open>seq[1] >= '0' && seq[1] <= '9'\<close> of \<open>editorReadKey\<close>.\<close>

definition is_digit :: "char \<Rightarrow> bool" where
  "is_digit c \<longleftrightarrow> char_int (CHR ''0'') \<le> char_int c \<and> char_int c \<le> char_int (CHR ''9'')"

text \<open>
  The rows as \<open>editorAppendRow\<close> leaves them: \<open>size\<close> is the number of bytes of
  \<open>chars\<close>, the size that \<open>editorUpdateRow\<close> computes for the \<open>render\<close> buffer is an
  \<open>int\<close>, and \<open>numrows\<close> is the number of rows. \<open>row_len E i\<close> is the length of row
  \<open>i\<close>, and 0 where there is no row \<open>i\<close> (at \<open>i = numrows\<close>, past the last row).
\<close>

definition row_ok :: "erow \<Rightarrow> bool" where
  "row_ok r \<longleftrightarrow>
     size_erow r = int (length (chars r))
     \<and> size_erow r + count_tabs (chars r) * (KILO_TAB_STOP - 1) + 1 \<le> INT_MAX"

definition rows_ok :: "editorConfig \<Rightarrow> bool" where
  "rows_ok E \<longleftrightarrow> numrows E = int (length (row E)) \<and> list_all row_ok (row E)"

definition row_len :: "editorConfig \<Rightarrow> int \<Rightarrow> int" where
  "row_len E i = (if 0 \<le> i \<and> i < numrows E then size_erow (row E ! nat i) else 0)"

definition cursor_ok :: "editorConfig \<Rightarrow> bool" where
  "cursor_ok E \<longleftrightarrow> 0 \<le> cx E \<and> cx E \<le> row_len E (cy E) \<and> 0 \<le> cy E \<and> cy E \<le> numrows E"

text \<open>What a cursor movement leaves as it is: the rows and the viewport.\<close>

definition same_view :: "editorConfig \<Rightarrow> editorConfig \<Rightarrow> bool" where
  "same_view E E' \<longleftrightarrow>
     row E' = row E \<and> numrows E' = numrows E \<and> rowoff E' = rowoff E \<and> coloff E' = coloff E
     \<and> screenRows E' = screenRows E \<and> screenCols E' = screenCols E"

text \<open>
  The navigation keys, a run of the \<open>switch\<close> of \<open>editorProcessKeypress\<close> on a list of
  keys, and the loop of \<open>main\<close> on a list of keys: \<open>editorRefreshScreen\<close>, whose effect
  on the state is \<open>editorScroll\<close>, then the key.
\<close>

definition nav_key :: "int \<Rightarrow> bool" where
  "nav_key c \<longleftrightarrow>
     c = ARROW_LEFT \<or> c = ARROW_RIGHT \<or> c = ARROW_UP \<or> c = ARROW_DOWN
     \<or> c = HOME_KEY \<or> c = END_KEY \<or> c = PAGE_UP \<or> c = PAGE_DOWN"

fun process_keys :: "int list \<Rightarrow> editorConfig \<Rightarrow> editorConfig result" where
  "process_keys [] E = Inr E"
| "process_keys (c # cs) E =
     (case editorProcessKeypress_switch c E of
        Inl e \<Rightarrow> Inl e
      | Inr E' \<Rightarrow> process_keys cs E')"

fun main_loop :: "int list \<Rightarrow> editorConfig \<Rightarrow> editorConfig result" where
  "main_loop [] E = Inr E"
| "main_loop (c # cs) E =
     (case editorScroll E of
        Inl e \<Rightarrow> Inl e
      | Inr E1 \<Rightarrow>
          (case editorProcessKeypress_switch c E1 of
             Inl e \<Rightarrow> Inl e
           | Inr E2 \<Rightarrow> main_loop cs E2))"

text \<open>
  PageUp and PageDown in the words of the specification: \<open>cy\<close> snaps to \<open>row_offset\<close>,
  or to \<open>row_offset + rows_visible - 1\<close> clamped to \<open>row_count\<close>, and then the move of one
  line is repeated \<open>rows_visible\<close> times.
\<close>

fun repeat_move :: "nat \<Rightarrow> int \<Rightarrow> editorConfig \<Rightarrow> editorConfig result" where
  "repeat_move 0 key E = Inr E"
| "repeat_move (Suc n) key E =
     (case editorMoveCursor key E of
        Inl e \<Rightarrow> Inl e
      | Inr E' \<Rightarrow> repeat_move n key E')"

definition page_up_spec :: "editorConfig \<Rightarrow> editorConfig result" where
  "page_up_spec E = repeat_move (nat (screenRows E)) ARROW_UP (E\<lparr>cy := rowoff E\<rparr>)"

definition page_down_spec :: "editorConfig \<Rightarrow> editorConfig result" where
  "page_down_spec E =
     repeat_move (nat (screenRows E)) ARROW_DOWN
       (E\<lparr>cy := min (rowoff E + screenRows E - 1) (numrows E)\<rparr>)"

text \<open>
  The invariant of navigation: the rows are as loaded, the cursor is in range, the first
  visible row is a row index or \<open>numrows\<close>, and the screen has at least one text row.
\<close>

definition nav_inv :: "editorConfig \<Rightarrow> bool" where
  "nav_inv E \<longleftrightarrow>
     rows_ok E \<and> cursor_ok E \<and> 0 \<le> rowoff E \<and> rowoff E \<le> numrows E \<and> 1 \<le> screenRows E"

text \<open>The state after \<open>initEditor\<close> on a terminal of 2 rows and 80 columns.\<close>

definition two_row_start :: editorConfig where
  "two_row_start =
     \<lparr>cx = 0, cy = 0, rx = 0, rowoff = 0, coloff = 0, screenRows = 0, screenCols = 80,
      numrows = 0, row = [], filename = None, status_msg = [], statusmsg_time = 0\<rparr>"

text \<open>
  The lines of a file in the words of the specification: the file is cut after every line
  feed, and a last piece without a line feed is a line too. \<open>strip_crlf\<close> removes every
  carriage return and line feed at the end of a line.
\<close>

fun file_lines :: "string \<Rightarrow> string list" where
  "file_lines [] = []"
| "file_lines (c # cs) =
     (if c = LF then [c] # file_lines cs
      else (case file_lines cs of
              [] \<Rightarrow> [[c]]
            | l # ls \<Rightarrow> (c # l) # ls))"

definition strip_crlf :: "string \<Rightarrow> string" where
  "strip_crlf line = rev (dropWhile (\<lambda>c. c = LF \<or> c = CR) (rev line))"

text \<open>
  A line whose row can be built: for the stripped line, the size that \<open>editorUpdateRow\<close>
  computes for the \<open>render\<close> buffer is an \<open>int\<close>. A file whose rows can be built: all its
  lines are such, and their number is an \<open>int\<close>.
\<close>

definition line_fits :: "string \<Rightarrow> bool" where
  "line_fits l \<longleftrightarrow>
     int (length (strip_crlf l)) + count_tabs (strip_crlf l) * (KILO_TAB_STOP - 1) + 1 \<le> INT_MAX"

definition file_fits :: "string \<Rightarrow> bool" where
  "file_fits bytes \<longleftrightarrow>
     list_all line_fits (file_lines bytes) \<and> int (length (file_lines bytes)) \<le> INT_MAX"

text \<open>A file of one line of \<open>2 ^ 28\<close> tabs, without a line feed: 256 MiB.\<close>

definition tabs_file :: string where
  "tabs_file = replicate 268435456 TAB"

definition tabs_fs :: "string \<rightharpoonup> string" where
  "tabs_fs = (\<lambda>name. if name = ''tabs.txt'' then Some tabs_file else None)"

text \<open>The state after \<open>initEditor\<close> on a terminal of 24 rows and 80 columns.\<close>

definition start_state :: editorConfig where
  "start_state =
     \<lparr>cx = 0, cy = 0, rx = 0, rowoff = 0, coloff = 0, screenRows = 22, screenCols = 80,
      numrows = 0, row = [], filename = None, status_msg = [], statusmsg_time = 0\<rparr>"

text \<open>The state after \<open>initEditor\<close> on a terminal of 1 row and 80 columns.\<close>

definition one_row_start :: editorConfig where
  "one_row_start =
     \<lparr>cx = 0, cy = 0, rx = 0, rowoff = 0, coloff = 0, screenRows = - 1, screenCols = 80,
      numrows = 0, row = [], filename = None, status_msg = [], statusmsg_time = 0\<rparr>"

section \<open>The loops of the row operations in closed form\<close>

lemma CTRL_KEY_q: "CTRL_KEY (char_int (CHR ''q'')) = 17"
  by (simp add: CTRL_KEY_def char_int_def)

lemmas editorKey_defs =
  ARROW_LEFT_def ARROW_RIGHT_def ARROW_UP_def ARROW_DOWN_def DEL_KEY_def
  HOME_KEY_def END_KEY_def PAGE_UP_def PAGE_DOWN_def

lemma int_op_ok: "INT_MIN \<le> v \<Longrightarrow> v \<le> INT_MAX \<Longrightarrow> int_op v = Inr v"
  by (simp add: int_op_def)

lemma int_op_nonneg: "0 \<le> v \<Longrightarrow> v \<le> INT_MAX \<Longrightarrow> int_op v = Inr v"
  by (simp add: int_op_def INT_MIN_def)

lemma int_op_over: "INT_MAX < v \<Longrightarrow> int_op v = Inl Int_Overflow"
  by (simp add: int_op_def)

lemma int_of_size_t_small: "int n \<le> INT_MAX \<Longrightarrow> int_of_size_t n = int n"
  by (simp add: int_of_size_t_def INT_MAX_def)

lemma byte_at_in: "0 \<le> j \<Longrightarrow> j < int (length s) \<Longrightarrow> byte_at s j = Inr (s ! nat j)"
  by (simp add: byte_at_def)

lemma drop_take_step:
  assumes "0 \<le> j" "j < n" "n \<le> int (length s)"
  shows "drop (nat j) (take (nat n) s) = s ! nat j # drop (nat (j + 1)) (take (nat n) s)"
proof -
  have l: "nat j < length (take (nat n) s)" using assms by simp
  have "take (nat n) s ! nat j # drop (Suc (nat j)) (take (nat n) s) = drop (nat j) (take (nat n) s)"
    by (rule Cons_nth_drop_Suc) (rule l)
  moreover have "take (nat n) s ! nat j = s ! nat j" using assms by simp
  moreover have "Suc (nat j) = nat (j + 1)" using assms by simp
  ultimately show ?thesis by metis
qed

lemma remaining_step:
  "0 \<le> j \<Longrightarrow> j < size_erow r \<Longrightarrow> size_erow r \<le> int (length (chars r)) \<Longrightarrow>
   remaining r j = chars r ! nat j # remaining r (j + 1)"
  unfolding remaining_def by (rule drop_take_step)

lemma remaining_end: "0 \<le> j \<Longrightarrow> \<not> j < size_erow r \<Longrightarrow> remaining r j = []"
  by (simp add: remaining_def)

lemma remaining_0: "size_erow r = int (length (chars r)) \<Longrightarrow> remaining r 0 = chars r"
  by (simp add: remaining_def)

lemma smod_nonneg: "0 \<le> (x::int) \<Longrightarrow> x smod KILO_TAB_STOP = x mod KILO_TAB_STOP"
  by (simp add: signed_modulo_int_def KILO_TAB_STOP_def sgn_if)

lemma count_tabs_Cons: "count_tabs (c # s) = (if c = TAB then 1 else 0) + count_tabs s"
  by (simp add: count_tabs_def)

lemma count_tabs_nonneg: "0 \<le> count_tabs s"
  by (simp add: count_tabs_def)

lemma count_tabs_le_length: "count_tabs s \<le> int (length s)"
  by (simp add: count_tabs_def)

lemma editorUpdateRow_tabs_count:
  "0 \<le> j \<Longrightarrow> size_erow r \<le> int (length (chars r)) \<Longrightarrow> 0 \<le> t \<Longrightarrow>
   t + count_tabs (remaining r j) \<le> INT_MAX \<Longrightarrow>
   editorUpdateRow_tabs r j t = Inr (t + count_tabs (remaining r j))"
proof (induction r j t rule: editorUpdateRow_tabs.induct)
  case (1 r j t)
  show ?case
  proof (cases "j < size_erow r")
    case True
    define c where "c = chars r ! nat j"
    define t1 where "t1 = (if c = TAB then t + 1 else t)"
    have b: "byte_at (chars r) j = Inr c"
      using True 1(2,3) by (simp add: byte_at_in c_def)
    have d: "remaining r j = c # remaining r (j + 1)"
      using True 1(2,3) by (simp add: remaining_step c_def)
    have sum: "t1 + count_tabs (remaining r (j + 1)) = t + count_tabs (remaining r j)"
      by (simp add: d count_tabs_Cons t1_def)
    have t1: "0 \<le> t1" "t1 \<le> INT_MAX"
      using 1(4,5) sum count_tabs_nonneg [of "remaining r (j + 1)"] by (simp_all add: t1_def)
    have g: "(if c = TAB then int_op (t + 1) else Inr t) = Inr t1"
      using t1 by (auto simp: t1_def int_op_nonneg)
    have "editorUpdateRow_tabs r j t = editorUpdateRow_tabs r (j + 1) t1"
      using True b g by (subst editorUpdateRow_tabs.simps) simp
    also have "\<dots> = Inr (t1 + count_tabs (remaining r (j + 1)))"
    proof (rule "1.IH" [OF True b g])
      show "0 \<le> j + 1" using 1(2) by simp
      show "size_erow r \<le> int (length (chars r))" by (rule 1(3))
      show "0 \<le> t1" by (rule t1(1))
      show "t1 + count_tabs (remaining r (j + 1)) \<le> INT_MAX" using sum 1(5) by simp
    qed
    finally show ?thesis using sum by simp
  next
    case False
    then show ?thesis using 1(2)
      by (subst editorUpdateRow_tabs.simps) (simp add: remaining_end count_tabs_def)
  qed
qed

lemma render_put_ok:
  "0 \<le> idx \<Longrightarrow> idx < cap \<Longrightarrow> cap \<le> INT_MAX \<Longrightarrow>
   render_put cap idx buf c = Inr (idx + 1, buf @ [c])"
  by (simp add: render_put_def int_op_nonneg)

lemma editorUpdateRow_pad_ok:
  "0 \<le> idx \<Longrightarrow> idx + (- idx) mod KILO_TAB_STOP \<le> cap \<Longrightarrow> cap \<le> INT_MAX \<Longrightarrow>
   editorUpdateRow_pad cap idx buf =
     Inr (idx + (- idx) mod KILO_TAB_STOP,
          buf @ replicate (nat ((- idx) mod KILO_TAB_STOP)) (CHR '' ''))"
proof (induction cap idx buf rule: editorUpdateRow_pad.induct)
  case (1 cap idx buf)
  show ?case
  proof (cases "idx mod KILO_TAB_STOP = 0")
    case True
    then have z: "(- idx) mod KILO_TAB_STOP = 0"
      unfolding KILO_TAB_STOP_def by presburger
    show ?thesis using True z 1(2)
      by (subst editorUpdateRow_pad.simps) (simp add: smod_nonneg)
  next
    case False
    have s: "idx smod KILO_TAB_STOP \<noteq> 0" using False 1(2) by (simp add: smod_nonneg)
    have k: "(- idx) mod KILO_TAB_STOP = (- (idx + 1)) mod KILO_TAB_STOP + 1"
      using False unfolding KILO_TAB_STOP_def by presburger
    have k0: "0 \<le> (- (idx + 1)) mod KILO_TAB_STOP"
      unfolding KILO_TAB_STOP_def by simp
    have c: "idx < cap" using 1(3) k k0 by linarith
    have p: "render_put cap idx buf (CHR '' '') = Inr (idx + 1, buf @ [CHR '' ''])"
      using 1(2) c 1(4) by (rule render_put_ok)
    have "editorUpdateRow_pad cap idx buf = editorUpdateRow_pad cap (idx + 1) (buf @ [CHR '' ''])"
      using s p by (subst editorUpdateRow_pad.simps) simp
    also have "\<dots> = Inr (idx + 1 + (- (idx + 1)) mod KILO_TAB_STOP,
          (buf @ [CHR '' '']) @ replicate (nat ((- (idx + 1)) mod KILO_TAB_STOP)) (CHR '' ''))"
    proof (rule "1.IH" [OF s p refl])
      show "0 \<le> idx + 1" using 1(2) by simp
      show "idx + 1 + (- (idx + 1)) mod KILO_TAB_STOP \<le> cap" using 1(3) k by simp
      show "cap \<le> INT_MAX" by (rule 1(4))
    qed
    also have "\<dots> = Inr (idx + (- idx) mod KILO_TAB_STOP,
          buf @ replicate (nat ((- idx) mod KILO_TAB_STOP)) (CHR '' ''))"
    proof -
      have "nat ((- idx) mod KILO_TAB_STOP) = Suc (nat ((- (idx + 1)) mod KILO_TAB_STOP))"
        using k k0 by linarith
      then show ?thesis using k by simp
    qed
    finally show ?thesis .
  qed
qed

lemma length_render_step: "int (length (render_step c buf)) = rx_step c (int (length buf))"
proof -
  have "0 < KILO_TAB_STOP - int (length buf) mod KILO_TAB_STOP"
    unfolding KILO_TAB_STOP_def by simp
  then show ?thesis
    by (simp add: render_step_def rx_step_def smod_nonneg)
qed

lemma rx_step_bounds:
  "0 \<le> x \<Longrightarrow> x < rx_step c x \<and> rx_step c x \<le> x + (if c = TAB then KILO_TAB_STOP else 1)"
proof -
  assume "0 \<le> x"
  have "0 \<le> x mod KILO_TAB_STOP \<and> x mod KILO_TAB_STOP < KILO_TAB_STOP"
    unfolding KILO_TAB_STOP_def by simp
  then show ?thesis using \<open>0 \<le> x\<close>
    by (simp add: rx_step_def smod_nonneg)
qed

lemma length_fold_render_step:
  "int (length (fold render_step s buf)) \<le> int (length buf) + int (length s) + 7 * count_tabs s"
proof (induction s arbitrary: buf)
  case Nil
  then show ?case by (simp add: count_tabs_def)
next
  case (Cons c s)
  have "int (length (render_step c buf)) \<le> int (length buf) + (if c = TAB then 8 else 1)"
    using rx_step_bounds [of "int (length buf)" c]
    by (auto simp: length_render_step KILO_TAB_STOP_def)
  then show ?case using Cons.IH [of "render_step c buf"]
    by (auto simp: count_tabs_Cons split: if_splits)
qed

lemma editorUpdateRow_fill_ok:
  "0 \<le> j \<Longrightarrow> size_erow r \<le> int (length (chars r)) \<Longrightarrow> idx = int (length buf) \<Longrightarrow>
   idx + int (length (remaining r j)) + 7 * count_tabs (remaining r j) < cap \<Longrightarrow>
   cap \<le> INT_MAX \<Longrightarrow>
   editorUpdateRow_fill r cap j idx buf =
     Inr (int (length (fold render_step (remaining r j) buf)), fold render_step (remaining r j) buf)"
proof (induction r cap j idx buf rule: editorUpdateRow_fill.induct)
  case (1 r cap j idx buf)
  show ?case
  proof (cases "j < size_erow r")
    case False
    then show ?thesis using 1(3-)
      by (subst editorUpdateRow_fill.simps) (simp add: remaining_end)
  next
    case True
    define c where "c = chars r ! nat j"
    have b: "byte_at (chars r) j = Inr c"
      using True 1(3-) by (simp add: byte_at_in c_def)
    have d: "remaining r j = c # remaining r (j + 1)"
      using True 1(3-) by (simp add: remaining_step c_def)
    have idx0: "0 \<le> idx" using 1(5) by simp
    have ct: "0 \<le> count_tabs (remaining r (j + 1))" by (rule count_tabs_nonneg)
    show ?thesis
    proof (cases "c = TAB")
      case False
      have rs0: "render_step c buf = buf @ [c]" using False by (simp add: render_step_def)
      have cap1: "idx < cap" using 1(6) d ct False by (simp add: count_tabs_Cons)
      have p: "render_put cap idx buf c = Inr (idx + 1, buf @ [c])"
        using idx0 cap1 1(7) by (rule render_put_ok)
      have "editorUpdateRow_fill r cap j idx buf = editorUpdateRow_fill r cap (j + 1) (idx + 1) (buf @ [c])"
        using True b False p by (subst editorUpdateRow_fill.simps) simp
      also have "\<dots> = Inr (int (length (fold render_step (remaining r (j + 1)) (buf @ [c]))),
                           fold render_step (remaining r (j + 1)) (buf @ [c]))"
      proof (rule "1.IH"(2) [OF True b False p refl])
        show "0 \<le> j + 1" using 1(3) by simp
        show "size_erow r \<le> int (length (chars r))" by (rule 1(4))
        show "idx + 1 = int (length (buf @ [c]))" using 1(5) by simp
        show "idx + 1 + int (length (remaining r (j + 1))) + 7 * count_tabs (remaining r (j + 1)) < cap"
          using 1(6) d False by (simp add: count_tabs_Cons)
        show "cap \<le> INT_MAX" by (rule 1(7))
      qed
      finally show ?thesis using d rs0 by simp
    next
      case True': True
      define k where "k = (- (idx + 1)) mod KILO_TAB_STOP"
      have k0: "0 \<le> k \<and> k < 8" unfolding k_def KILO_TAB_STOP_def by simp
      have keq: "1 + k = KILO_TAB_STOP - idx mod KILO_TAB_STOP"
        unfolding k_def KILO_TAB_STOP_def by presburger
      have budget: "idx + 8 + int (length (remaining r (j + 1))) + 7 * count_tabs (remaining r (j + 1)) < cap"
        using 1(6) d True' by (simp add: count_tabs_Cons)
      have cap1: "idx < cap" using budget ct by simp
      have p: "render_put cap idx buf (CHR '' '') = Inr (idx + 1, buf @ [CHR '' ''])"
        using idx0 cap1 1(7) by (rule render_put_ok)
      have q: "editorUpdateRow_pad cap (idx + 1) (buf @ [CHR '' '']) =
                 Inr (idx + 1 + k, (buf @ [CHR '' '']) @ replicate (nat k) (CHR '' ''))"
        unfolding k_def
      proof (rule editorUpdateRow_pad_ok)
        show "0 \<le> idx + 1" using idx0 by simp
        show "idx + 1 + (- (idx + 1)) mod KILO_TAB_STOP \<le> cap"
          using budget ct k0 unfolding k_def by simp
        show "cap \<le> INT_MAX" by (rule 1(7))
      qed
      have rs: "(buf @ [CHR '' '']) @ replicate (nat k) (CHR '' '') = render_step TAB buf"
      proof -
        have "KILO_TAB_STOP - int (length buf) mod KILO_TAB_STOP = 1 + k"
          using keq 1(5) by simp
        moreover have "nat (1 + k) = Suc (nat k)" using k0 by arith
        ultimately have "nat (KILO_TAB_STOP - int (length buf) mod KILO_TAB_STOP) = Suc (nat k)"
          by simp
        then show ?thesis by (simp add: render_step_def replicate_append_same)
      qed
      have "editorUpdateRow_fill r cap j idx buf =
              editorUpdateRow_fill r cap (j + 1) (idx + 1 + k) (render_step TAB buf)"
        using True b True' p q rs by (subst editorUpdateRow_fill.simps) simp
      also have "\<dots> = Inr (int (length (fold render_step (remaining r (j + 1)) (render_step TAB buf))),
                           fold render_step (remaining r (j + 1)) (render_step TAB buf))"
      proof (rule "1.IH"(1) [OF True b True' p refl q [unfolded rs] refl])
        show "0 \<le> j + 1" using 1(3) by simp
        show "size_erow r \<le> int (length (chars r))" by (rule 1(4))
        show "idx + 1 + k = int (length (render_step TAB buf))"
          using rs [symmetric] 1(5) k0 by simp
        show "idx + 1 + k + int (length (remaining r (j + 1))) + 7 * count_tabs (remaining r (j + 1)) < cap"
          using budget k0 by simp
        show "cap \<le> INT_MAX" by (rule 1(7))
      qed
      finally show ?thesis using d True' by simp
    qed
  qed
qed

lemma editorUpdateRow_ok:
  assumes wf: "size_erow r = int (length (chars r))"
    and fits: "size_erow r + count_tabs (chars r) * (KILO_TAB_STOP - 1) + 1 \<le> INT_MAX"
  shows "editorUpdateRow r =
           Inr (r\<lparr>render := fold render_step (chars r) [],
                  rsize := int (length (fold render_step (chars r) []))\<rparr>)"
proof -
  define tabs where "tabs = count_tabs (chars r)"
  define cap where "cap = size_erow r + tabs * (KILO_TAB_STOP - 1) + 1"
  have t0: "0 \<le> tabs" unfolding tabs_def by (rule count_tabs_nonneg)
  have s0: "0 \<le> size_erow r" using wf by simp
  have capm: "cap \<le> INT_MAX" using fits by (simp add: cap_def tabs_def)
  have t: "editorUpdateRow_tabs r 0 0 = Inr tabs"
    using editorUpdateRow_tabs_count [of 0 r 0] wf fits s0 t0
    by (simp add: remaining_0 tabs_def KILO_TAB_STOP_def)
  have a1: "int_op (tabs * (KILO_TAB_STOP - 1)) = Inr (tabs * (KILO_TAB_STOP - 1))"
    using t0 s0 capm by (intro int_op_nonneg) (simp_all add: cap_def KILO_TAB_STOP_def)
  have a2: "int_op (size_erow r + tabs * (KILO_TAB_STOP - 1)) = Inr (size_erow r + tabs * (KILO_TAB_STOP - 1))"
    using t0 s0 capm by (intro int_op_nonneg) (simp_all add: cap_def KILO_TAB_STOP_def)
  have a3: "int_op (size_erow r + tabs * (KILO_TAB_STOP - 1) + 1) = Inr cap"
    unfolding cap_def using t0 s0 capm
    by (intro int_op_nonneg) (simp_all add: cap_def KILO_TAB_STOP_def)
  have len: "int (length (fold render_step (chars r) [])) \<le> int (length (chars r)) + 7 * count_tabs (chars r)"
    using length_fold_render_step [of "chars r" "[]"] by simp
  have f: "editorUpdateRow_fill r cap 0 0 [] =
             Inr (int (length (fold render_step (chars r) [])), fold render_step (chars r) [])"
    using editorUpdateRow_fill_ok [of 0 r 0 "[]" cap] wf capm
    by (simp add: remaining_0 cap_def tabs_def KILO_TAB_STOP_def)
  have "int (length (fold render_step (chars r) [])) < cap"
    using len wf by (simp add: cap_def tabs_def KILO_TAB_STOP_def)
  then show ?thesis
    using t a1 a2 a3 f by (simp add: editorUpdateRow_def)
qed

lemma editorUpdateRow_overflow:
  assumes wf: "size_erow r = int (length (chars r))"
    and int_size: "size_erow r \<le> INT_MAX"
    and over: "INT_MAX < size_erow r + count_tabs (chars r) * (KILO_TAB_STOP - 1) + 1"
  shows "editorUpdateRow r = Inl Int_Overflow"
proof -
  define tabs where "tabs = count_tabs (chars r)"
  have t0: "0 \<le> tabs" unfolding tabs_def by (rule count_tabs_nonneg)
  have s0: "0 \<le> size_erow r" using wf by simp
  have "tabs \<le> INT_MAX"
    using count_tabs_le_length [of "chars r"] wf int_size by (simp add: tabs_def)
  then have t: "editorUpdateRow_tabs r 0 0 = Inr tabs"
    using editorUpdateRow_tabs_count [of 0 r 0] wf
    by (simp add: remaining_0 tabs_def)
  show ?thesis
    using t t0 s0 over
    by (simp add: editorUpdateRow_def int_op_def tabs_def [symmetric] INT_MIN_def INT_MAX_def
        KILO_TAB_STOP_def split: sum.splits)
qed

lemma fold_rx_step_length:
  "fold rx_step s (int (length buf)) = int (length (fold render_step s buf))"
  by (induction s arbitrary: buf) (simp_all add: length_render_step [symmetric])

lemma fold_rx_step_nonneg: "0 \<le> x \<Longrightarrow> 0 \<le> fold rx_step s x"
proof (induction s arbitrary: x)
  case Nil
  then show ?case by simp
next
  case (Cons c s)
  have "0 \<le> rx_step c x" using rx_step_bounds [of x c] Cons.prems by simp
  then show ?case using Cons.IH by simp
qed

lemma fold_rx_step_mono: "0 \<le> x \<Longrightarrow> x \<le> fold rx_step s x"
proof (induction s arbitrary: x)
  case Nil
  then show ?case by simp
next
  case (Cons c s)
  have "x < rx_step c x" using rx_step_bounds [of x c] Cons.prems by simp
  moreover have "rx_step c x \<le> fold rx_step s (rx_step c x)"
    using Cons.IH [of "rx_step c x"] \<open>x < rx_step c x\<close> Cons.prems by simp
  ultimately show ?case by simp
qed

lemma rx_step_TAB_multiple: "0 \<le> x \<Longrightarrow> rx_step TAB x smod KILO_TAB_STOP = 0"
proof -
  assume x: "0 \<le> x"
  have n: "0 \<le> rx_step TAB x" using rx_step_bounds [of x TAB] x by simp
  have e: "rx_step TAB x = x + (KILO_TAB_STOP - x mod KILO_TAB_STOP)"
    using x by (simp add: rx_step_def smod_nonneg)
  have "(x + (8 - x mod 8)) mod 8 = 0" by presburger
  then have "rx_step TAB x mod KILO_TAB_STOP = 0"
    using e by (simp add: KILO_TAB_STOP_def)
  then show ?thesis using smod_nonneg [OF n] by simp
qed

text \<open>The two guarded operations of one pass of the loop of \<open>editorRowCxToRx\<close>.\<close>

lemma rx_step_in_int:
  assumes "0 \<le> x" and "rx_step c x \<le> INT_MAX"
  shows "(if c = TAB
          then int_op (x + ((KILO_TAB_STOP - 1) - (x smod KILO_TAB_STOP)))
          else Inr x) = Inr (rx_step c x - 1)"
    and "int_op (rx_step c x - 1 + 1) = Inr (rx_step c x)"
proof -
  have m: "0 \<le> x mod KILO_TAB_STOP \<and> x mod KILO_TAB_STOP < KILO_TAB_STOP"
    unfolding KILO_TAB_STOP_def by simp
  have p: "0 \<le> rx_step c x - 1"
    using rx_step_bounds [of x c] assms(1) by simp
  show "(if c = TAB
          then int_op (x + ((KILO_TAB_STOP - 1) - (x smod KILO_TAB_STOP)))
          else Inr x) = Inr (rx_step c x - 1)"
  proof (cases "c = TAB")
    case True
    have e: "x + ((KILO_TAB_STOP - 1) - (x smod KILO_TAB_STOP)) = rx_step c x - 1"
      using True by (simp add: rx_step_def)
    have "(if c = TAB
          then int_op (x + ((KILO_TAB_STOP - 1) - (x smod KILO_TAB_STOP)))
          else Inr x) = int_op (x + ((KILO_TAB_STOP - 1) - (x smod KILO_TAB_STOP)))"
      using True by simp
    also have "\<dots> = int_op (rx_step c x - 1)" by (simp only: e)
    also have "\<dots> = Inr (rx_step c x - 1)"
      using p assms(2) by (intro int_op_nonneg) simp_all
    finally show ?thesis .
  next
    case False
    then show ?thesis by (simp add: rx_step_def)
  qed
  show "int_op (rx_step c x - 1 + 1) = Inr (rx_step c x)"
    using p assms(2) by (simp add: int_op_nonneg)
qed

lemma editorRowCxToRx_loop_fold:
  "0 \<le> j \<Longrightarrow> n \<le> int (length (chars r)) \<Longrightarrow> 0 \<le> x \<Longrightarrow>
   fold rx_step (drop (nat j) (take (nat n) (chars r))) x \<le> INT_MAX \<Longrightarrow>
   editorRowCxToRx_loop r n j x = Inr (fold rx_step (drop (nat j) (take (nat n) (chars r))) x)"
proof (induction r n j x rule: editorRowCxToRx_loop.induct)
  case (1 r n j x)
  show ?case
  proof (cases "j < n")
    case True
    define c where "c = chars r ! nat j"
    have b: "byte_at (chars r) j = Inr c"
      using True 1(2,3) by (simp add: byte_at_in c_def)
    have d: "drop (nat j) (take (nat n) (chars r)) = c # drop (nat (j + 1)) (take (nat n) (chars r))"
      using True 1(2,3) by (simp add: drop_take_step c_def)
    have x1: "0 \<le> rx_step c x" using rx_step_bounds [of x c] 1(4) by simp
    have fin: "fold rx_step (drop (nat (j + 1)) (take (nat n) (chars r))) (rx_step c x) \<le> INT_MAX"
      using 1(5) d by simp
    have le: "rx_step c x \<le> INT_MAX"
      using fold_rx_step_mono [OF x1, of "drop (nat (j + 1)) (take (nat n) (chars r))"] fin by simp
    note g = rx_step_in_int [OF 1(4) le]
    have "editorRowCxToRx_loop r n j x = editorRowCxToRx_loop r n (j + 1) (rx_step c x)"
      using True b g by (subst editorRowCxToRx_loop.simps) simp
    also have "\<dots> = Inr (fold rx_step (drop (nat (j + 1)) (take (nat n) (chars r))) (rx_step c x))"
    proof (rule "1.IH" [OF True b g])
      show "0 \<le> j + 1" using 1(2) by simp
      show "n \<le> int (length (chars r))" by (rule 1(3))
      show "0 \<le> rx_step c x" by (rule x1)
      show "fold rx_step (drop (nat (j + 1)) (take (nat n) (chars r))) (rx_step c x) \<le> INT_MAX"
        by (rule fin)
    qed
    finally show ?thesis using d by simp
  next
    case False
    then have "drop (nat j) (take (nat n) (chars r)) = []" using 1 by simp
    then show ?thesis using False by (subst editorRowCxToRx_loop.simps) simp
  qed
qed

lemma fold_rx_step_take_le: "fold rx_step (take n s) 0 \<le> fold rx_step s 0"
proof -
  have "fold rx_step s 0 = fold rx_step (drop n s) (fold rx_step (take n s) 0)"
    using fold_append [of rx_step "take n s" "drop n s"] by simp
  then show ?thesis
    using fold_rx_step_mono [OF fold_rx_step_nonneg [of 0 "take n s"], of "drop n s"] by simp
qed

lemma rendered_width_in_int:
  assumes "row_ok r"
  shows "fold rx_step (take n (chars r)) 0 < INT_MAX"
proof -
  have "fold rx_step (chars r) 0 = int (length (fold render_step (chars r) []))"
    using fold_rx_step_length [of "chars r" "[]"] by simp
  also have "\<dots> \<le> int (length (chars r)) + 7 * count_tabs (chars r)"
    using length_fold_render_step [of "chars r" "[]"] by simp
  also have "\<dots> < INT_MAX"
    using assms by (simp add: row_ok_def KILO_TAB_STOP_def)
  finally show ?thesis using fold_rx_step_take_le [of n "chars r"] by simp
qed

lemma editorRowCxToRx_fold:
  "row_ok r \<Longrightarrow> n \<le> size_erow r \<Longrightarrow>
   editorRowCxToRx r n = Inr (fold rx_step (take (nat n) (chars r)) 0)"
  using editorRowCxToRx_loop_fold [of 0 n r 0] rendered_width_in_int [of r "nat n"]
  by (simp add: editorRowCxToRx_def row_ok_def)

section \<open>Loading a file\<close>

lemma getline_file_lines:
  "getline fp = Some (line, fp') \<Longrightarrow> file_lines fp = line # file_lines fp'"
proof (induction fp arbitrary: line fp')
  case Nil
  then show ?case by simp
next
  case (Cons c cs)
  show ?case
  proof (cases "c = LF")
    case True
    then show ?thesis using Cons.prems by auto
  next
    case False
    show ?thesis
    proof (cases "getline cs")
      case None
      then have "cs = []" by (cases cs) (auto split: if_splits option.splits)
      then show ?thesis using False None Cons.prems by auto
    next
      case (Some p)
      obtain l rest where p: "p = (l, rest)" by (cases p)
      have "file_lines cs = l # file_lines rest" using Cons.IH Some p by simp
      then show ?thesis using False Some p Cons.prems by auto
    qed
  qed
qed

lemma file_lines_concat: "concat (file_lines bytes) = bytes"
  by (induction bytes) (auto split: list.splits)

lemma file_lines_nonempty: "l \<in> set (file_lines bytes) \<Longrightarrow> l \<noteq> []"
  by (induction bytes arbitrary: l) (auto split: if_splits list.splits)

lemma file_lines_line_feed_last:
  "l \<in> set (file_lines bytes) \<Longrightarrow> LF \<notin> set (butlast l)"
  by (induction bytes arbitrary: l) (auto split: if_splits list.splits)

lemma file_lines_all_but_last_end:
  "l \<in> set (butlast (file_lines bytes)) \<Longrightarrow> last l = LF"
proof (induction bytes arbitrary: l)
  case Nil
  then show ?case by simp
next
  case (Cons c cs)
  note mem = Cons.prems
  show ?case
  proof (cases "c = LF")
    case True
    then show ?thesis using mem Cons.IH by (auto split: if_splits)
  next
    case False
    show ?thesis
    proof (cases "file_lines cs")
      case Nil
      then show ?thesis using False mem by simp
    next
      case fl: (Cons l' ls)
      have ne: "l' \<noteq> []" using file_lines_nonempty [of l' cs] fl by simp
      show ?thesis
      proof (cases "ls = []")
        case True
        then show ?thesis using False fl mem by simp
      next
        case more: False
        have "l = c # l' \<or> l \<in> set (butlast ls)"
          using False fl more mem by auto
        moreover have "last l' = LF"
          using Cons.IH [of l'] fl more by simp
        moreover have "l \<in> set (butlast ls) \<Longrightarrow> last l = LF"
          using Cons.IH [of l] fl more by simp
        ultimately show ?thesis using ne by auto
      qed
    qed
  qed
qed

lemma getline_None: "getline fp = None \<Longrightarrow> file_lines fp = []"
  by (cases fp) (auto split: if_splits option.splits)

lemma strip_crlf_snoc:
  "strip_crlf (xs @ [c]) = (if c = LF \<or> c = CR then strip_crlf xs else xs @ [c])"
  by (simp add: strip_crlf_def)

lemma strip_crlf_length: "length (strip_crlf xs) \<le> length xs"
  by (simp add: strip_crlf_def length_dropWhile_le [of _ "rev xs", simplified])

lemma strip_crlf_take: "take (length (strip_crlf xs)) xs = strip_crlf xs"
proof -
  have "rev xs = takeWhile (\<lambda>c. c = LF \<or> c = CR) (rev xs) @ dropWhile (\<lambda>c. c = LF \<or> c = CR) (rev xs)"
    by simp
  then have "xs = strip_crlf xs @ rev (takeWhile (\<lambda>c. c = LF \<or> c = CR) (rev xs))"
    unfolding strip_crlf_def by (metis rev_append rev_rev_ident)
  then show ?thesis by (metis append_eq_conv_conj)
qed

lemma editorOpen_strip_nat:
  "n \<le> length line \<Longrightarrow>
   editorOpen_strip line (int n) = Inr (int (length (strip_crlf (take n line))))"
proof (induction n)
  case 0
  show ?case by (subst editorOpen_strip.simps) (simp add: strip_crlf_def)
next
  case (Suc n)
  have lt: "n < length line" using Suc.prems by simp
  have t: "take (Suc n) line = take n line @ [line ! n]"
    using lt by (rule take_Suc_conv_app_nth)
  have b: "byte_at line (int (Suc n) - 1) = Inr (line ! n)"
    using lt by (simp add: byte_at_def)
  have e: "int (Suc n) - 1 = int n" by simp
  show ?case
  proof (cases "line ! n = LF \<or> line ! n = CR")
    case True
    have "editorOpen_strip line (int (Suc n)) = editorOpen_strip line (int n)"
      using True b by (subst editorOpen_strip.simps) (simp only: e, simp)
    then show ?thesis using Suc.IH lt True t by (simp add: strip_crlf_snoc)
  next
    case False
    have "editorOpen_strip line (int (Suc n)) = Inr (int (Suc n))"
      using False b by (subst editorOpen_strip.simps) simp
    then show ?thesis using False t lt by (simp add: strip_crlf_snoc)
  qed
qed

lemma editorOpen_strip_ok:
  "editorOpen_strip line (int (length line)) = Inr (int (length (strip_crlf line)))"
  using editorOpen_strip_nat [of "length line" line] by simp

lemma editorAppendRow_ok:
  assumes ok: "rows_ok E" and len: "len \<le> length s"
    and fits: "int len + count_tabs (take len s) * (KILO_TAB_STOP - 1) + 1 \<le> INT_MAX"
    and more: "numrows E + 1 \<le> INT_MAX"
  shows "\<exists>r. editorAppendRow s len E = Inr (E\<lparr>row := row E @ [r], numrows := numrows E + 1\<rparr>)
             \<and> row_ok r \<and> chars r = take len s \<and> rsize r = int (length (render r))"
proof -
  define r0 where "r0 = \<lparr>size_erow = int len, rsize = 0, chars = take len s, render = []\<rparr>"
  define r where "r = r0\<lparr>render := fold render_step (chars r0) [],
                          rsize := int (length (fold render_step (chars r0) []))\<rparr>"
  have wf: "size_erow r0 = int (length (chars r0))" using len by (simp add: r0_def)
  have f0: "size_erow r0 + count_tabs (chars r0) * (KILO_TAB_STOP - 1) + 1 \<le> INT_MAX"
    using fits by (simp add: r0_def)
  have small: "int len \<le> INT_MAX"
    using fits count_tabs_nonneg [of "take len s"] by (simp add: KILO_TAB_STOP_def)
  have conv: "int_of_size_t len = int len" using small by (rule int_of_size_t_small)
  have u: "editorUpdateRow r0 = Inr r" unfolding r_def using wf f0 by (rule editorUpdateRow_ok)
  have n: "numrows E = int (length (row E))" using ok by (simp add: rows_ok_def)
  have n1: "int_op (numrows E + 1) = Inr (numrows E + 1)"
    using n more by (intro int_op_nonneg) simp_all
  have "editorAppendRow s len E = Inr (E\<lparr>row := row E @ [r], numrows := numrows E + 1\<rparr>)"
    using u n len n1 conv by (simp add: editorAppendRow_def r0_def [symmetric])
  moreover have "row_ok r" using wf f0 by (simp add: row_ok_def r_def)
  moreover have "chars r = take len s" by (simp add: r_def r0_def)
  moreover have "rsize r = int (length (render r))" by (simp add: r_def)
  ultimately show ?thesis by blast
qed

lemma editorOpen_loop_ok:
  "rows_ok E \<Longrightarrow> list_all line_fits (file_lines fp) \<Longrightarrow>
   numrows E + int (length (file_lines fp)) \<le> INT_MAX \<Longrightarrow>
   \<exists>E'. editorOpen_loop fp E = Inr E' \<and> rows_ok E'
        \<and> map chars (row E') = map chars (row E) @ map strip_crlf (file_lines fp)
        \<and> cx E' = cx E \<and> cy E' = cy E \<and> rowoff E' = rowoff E \<and> coloff E' = coloff E
        \<and> screenRows E' = screenRows E \<and> screenCols E' = screenCols E
        \<and> filename E' = filename E"
proof (induction fp E rule: editorOpen_loop.induct)
  case (1 fp E)
  show ?case
  proof (cases "getline fp")
    case None
    then show ?thesis using 1(2) getline_None [OF None]
      by (subst editorOpen_loop.simps) simp
  next
    case (Some p)
    obtain line fp' where p: "p = (line, fp')" by (cases p)
    have g: "getline fp = Some (line, fp')" using Some p by simp
    have fl: "file_lines fp = line # file_lines fp'" using g by (rule getline_file_lines)
    define k where "k = length (strip_crlf line)"
    have st: "editorOpen_strip line (int (length line)) = Inr (int k)"
      unfolding k_def by (rule editorOpen_strip_ok)
    have kl: "k \<le> length line" unfolding k_def by (rule strip_crlf_length)
    have tk: "take k line = strip_crlf line" unfolding k_def by (rule strip_crlf_take)
    have lf: "line_fits line" using 1(3) fl by simp
    have fits: "int k + count_tabs (take k line) * (KILO_TAB_STOP - 1) + 1 \<le> INT_MAX"
      unfolding tk using lf by (simp add: line_fits_def k_def)
    have more: "numrows E + 1 \<le> INT_MAX" using 1(4) fl by simp
    obtain r where a: "editorAppendRow line k E = Inr (E\<lparr>row := row E @ [r], numrows := numrows E + 1\<rparr>)"
      and r: "row_ok r" "chars r = take k line"
      using editorAppendRow_ok [OF 1(2) kl fits more] by blast
    define E1 where "E1 = E\<lparr>row := row E @ [r], numrows := numrows E + 1\<rparr>"
    have a': "editorAppendRow line (nat (int k)) E = Inr E1" using a by (simp add: E1_def)
    have ok1: "rows_ok E1" using 1(2) r(1) by (simp add: rows_ok_def E1_def)
    have cr: "chars r = strip_crlf line" using r(2) tk by simp
    have fits1: "list_all line_fits (file_lines fp')" using 1(3) fl by simp
    have more1: "numrows E1 + int (length (file_lines fp')) \<le> INT_MAX"
      using 1(4) fl by (simp add: E1_def)
    obtain E' where l: "editorOpen_loop fp' E1 = Inr E'" and ok': "rows_ok E'"
      and m: "map chars (row E') = map chars (row E1) @ map strip_crlf (file_lines fp')"
      and f: "cx E' = cx E1" "cy E' = cy E1" "rowoff E' = rowoff E1" "coloff E' = coloff E1"
        "screenRows E' = screenRows E1" "screenCols E' = screenCols E1" "filename E' = filename E1"
      using "1.IH" [OF g refl st a' ok1 fits1 more1] by blast
    have "editorOpen_loop fp E = Inr E'"
      using g st a' l by (subst editorOpen_loop.simps) simp
    then show ?thesis using ok' m f fl cr by (simp add: E1_def)
  qed
qed

text \<open>A line of tabs that is too long for the \<open>render\<close> buffer size to be an \<open>int\<close>.\<close>

lemma getline_tabs: "0 < n \<Longrightarrow> getline (replicate n TAB) = Some (replicate n TAB, [])"
proof (induction n)
  case 0
  then show ?case by simp
next
  case (Suc n)
  show ?case
  proof (cases "n = 0")
    case True
    then show ?thesis by (simp add: TAB_def LF_def)
  next
    case False
    then show ?thesis using Suc.IH by (simp add: TAB_def LF_def)
  qed
qed

lemma strip_crlf_tabs: "strip_crlf (replicate n TAB) = replicate n TAB"
  by (simp add: strip_crlf_def dropWhile_replicate TAB_def LF_def CR_def)

lemma count_tabs_tabs: "count_tabs (replicate n TAB) = int n"
  by (simp add: count_tabs_def)

lemma editorOpen_loop_tabs:
  assumes n: "0 < n" "int n \<le> INT_MAX" "INT_MAX < int n * KILO_TAB_STOP + 1"
    and E: "numrows E = 0" "row E = []"
  shows "editorOpen_loop (replicate n TAB) E = Inl Int_Overflow"
proof -
  define line where "line = replicate n TAB"
  define r0 where "r0 = \<lparr>size_erow = int n, rsize = 0, chars = line, render = []\<rparr>"
  have g: "getline line = Some (line, [])" unfolding line_def using n(1) by (rule getline_tabs)
  have st: "editorOpen_strip line (int (length line)) = Inr (int n)"
    using editorOpen_strip_ok [of line] by (simp add: line_def strip_crlf_tabs)
  have over: "INT_MAX < size_erow r0 + count_tabs (chars r0) * (KILO_TAB_STOP - 1) + 1"
    using n(3) by (simp add: r0_def line_def count_tabs_tabs KILO_TAB_STOP_def)
  have u: "editorUpdateRow r0 = Inl Int_Overflow"
    using over n(2) by (intro editorUpdateRow_overflow) (simp_all add: r0_def line_def)
  have conv: "int_of_size_t n = int n" using n(2) by (rule int_of_size_t_small)
  have n1: "int_op (numrows E + 1) = Inr 1"
    using E by (simp add: int_op_def INT_MIN_def INT_MAX_def)
  have a: "editorAppendRow line (nat (int n)) E = Inl Int_Overflow"
    using u E n1 conv by (simp add: editorAppendRow_def r0_def line_def)
  show ?thesis
    unfolding line_def [symmetric] using g st a by (subst editorOpen_loop.simps) simp
qed

section \<open>Cursor movement and scrolling\<close>

lemma row_at_in:
  "numrows E = int (length (row E)) \<Longrightarrow> 0 \<le> i \<Longrightarrow> i < numrows E \<Longrightarrow>
   row_at E i = Inr (row E ! nat i)"
  by (simp add: row_at_def)

lemma rows_ok_row:
  "rows_ok E \<Longrightarrow> 0 \<le> i \<Longrightarrow> i < numrows E \<Longrightarrow> row_ok (row E ! nat i)"
  by (simp add: rows_ok_def list_all_length)

lemma rows_ok_size:
  "rows_ok E \<Longrightarrow> 0 \<le> i \<Longrightarrow> i < numrows E \<Longrightarrow>
   size_erow (row E ! nat i) = int (length (chars (row E ! nat i)))"
  by (simp add: rows_ok_def list_all_length row_ok_def)

lemma row_len_nonneg: "rows_ok E \<Longrightarrow> 0 \<le> row_len E i"
  using rows_ok_size [of E i] by (simp add: row_len_def)

lemma editorProcessKeypress_times_nat:
  "editorProcessKeypress_times (int n) c E =
     repeat_move n (if c = PAGE_UP then ARROW_UP else ARROW_DOWN) E"
proof (induction n arbitrary: E)
  case 0
  show ?case by (subst editorProcessKeypress_times.simps) simp
next
  case (Suc n)
  define key where "key = (if c = PAGE_UP then ARROW_UP else ARROW_DOWN)"
  have e: "int (Suc n) - 1 = int n" by simp
  have "editorProcessKeypress_times (int (Suc n)) c E =
          (case editorMoveCursor key E of
             Inl e \<Rightarrow> Inl e
           | Inr E' \<Rightarrow> editorProcessKeypress_times (int n) c E')"
    unfolding key_def
    by (subst editorProcessKeypress_times.simps) (simp only: e, simp add: INT_MIN_def)
  also have "\<dots> = repeat_move (Suc n) key E"
  proof (cases "editorMoveCursor key E")
    case (Inl e)
    then show ?thesis by simp
  next
    case (Inr E')
    have "editorProcessKeypress_times (int n) c E' = repeat_move n key E'"
      unfolding key_def by (rule Suc.IH)
    then show ?thesis using Inr by simp
  qed
  finally show ?case by (simp add: key_def)
qed

text \<open>
  From a negative counter, in a state that the move leaves as it is, the loop runs until
  the counter leaves \<open>int\<close>.
\<close>

lemma editorProcessKeypress_times_negative:
  "t < 0 \<Longrightarrow> editorMoveCursor (if c = PAGE_UP then ARROW_UP else ARROW_DOWN) E = Inr E \<Longrightarrow>
   editorProcessKeypress_times t c E = Inl Int_Overflow"
proof (induction t c E rule: editorProcessKeypress_times.induct)
  case (1 t c E)
  show ?case
  proof (cases "t - 1 < INT_MIN")
    case True
    then show ?thesis using 1(2)
      by (subst editorProcessKeypress_times.simps) simp
  next
    case False
    have z: "t \<noteq> 0" using 1(2) by simp
    have "editorProcessKeypress_times t c E = editorProcessKeypress_times (t - 1) c E"
      using z False 1(3) by (subst editorProcessKeypress_times.simps) simp
    also have "\<dots> = Inl Int_Overflow"
      using "1.IH" [OF z False 1(3)] 1(2,3) by simp
    finally show ?thesis .
  qed
qed

lemma editorProcessKeypress_times_repeat:
  "0 \<le> t \<Longrightarrow>
   editorProcessKeypress_times t c E =
     repeat_move (nat t) (if c = PAGE_UP then ARROW_UP else ARROW_DOWN) E"
  using editorProcessKeypress_times_nat [of "nat t" c E] by simp

lemma rows_ok_same_view: "rows_ok E \<Longrightarrow> same_view E E' \<Longrightarrow> rows_ok E'"
  by (simp add: rows_ok_def same_view_def)

lemma same_view_trans: "same_view E E1 \<Longrightarrow> same_view E1 E2 \<Longrightarrow> same_view E E2"
  by (simp add: same_view_def)

lemma rows_ok_size_nonneg:
  "rows_ok E \<Longrightarrow> 0 \<le> i \<Longrightarrow> i < numrows E \<Longrightarrow> 0 \<le> size_erow (row E ! nat i)"
  using rows_ok_size [of E i] by simp

lemma editorMoveCursor_switch_ok:
  assumes "rows_ok E" and "0 \<le> cx E" and "0 \<le> cy E" and "cy E \<le> numrows E"
  shows "\<exists>E1. editorMoveCursor_switch key E = Inr E1 \<and> same_view E E1
               \<and> 0 \<le> cx E1 \<and> 0 \<le> cy E1 \<and> cy E1 \<le> numrows E1"
proof -
  have n: "numrows E = int (length (row E))" using assms(1) by (simp add: rows_ok_def)
  have prev: "0 \<le> size_erow (row E ! nat (cy E - 1))" if "0 < cy E"
    using rows_ok_size_nonneg [OF assms(1), of "cy E - 1"] that assms(4) by simp
  consider (left) "key = ARROW_LEFT" | (right) "key = ARROW_RIGHT" | (up) "key = ARROW_UP"
    | (down) "key = ARROW_DOWN"
    | (other) "key \<noteq> ARROW_LEFT" "key \<noteq> ARROW_RIGHT" "key \<noteq> ARROW_UP" "key \<noteq> ARROW_DOWN"
    by blast
  then show ?thesis
  proof cases
    case left
    then show ?thesis using assms n prev
      by (auto simp: editorMoveCursor_switch_def row_at_def same_view_def)
  next
    case right
    then show ?thesis using assms n
      by (auto simp: editorMoveCursor_switch_def row_at_def row_ptr_def same_view_def editorKey_defs)
  next
    case up
    then show ?thesis using assms
      by (auto simp: editorMoveCursor_switch_def same_view_def editorKey_defs)
  next
    case down
    then show ?thesis using assms
      by (auto simp: editorMoveCursor_switch_def same_view_def editorKey_defs)
  next
    case other
    then show ?thesis using assms
      by (simp add: editorMoveCursor_switch_def same_view_def)
  qed
qed

lemma editorMoveCursor_ok:
  assumes "rows_ok E" and "0 \<le> cx E" and "0 \<le> cy E" and "cy E \<le> numrows E"
  shows "\<exists>E'. editorMoveCursor key E = Inr E' \<and> same_view E E' \<and> cursor_ok E'"
proof -
  obtain E1 where s: "editorMoveCursor_switch key E = Inr E1" and v: "same_view E E1"
    and c: "0 \<le> cx E1" "0 \<le> cy E1" "cy E1 \<le> numrows E1"
    using editorMoveCursor_switch_ok [OF assms] by blast
  have ok1: "rows_ok E1" using assms(1) v by (rule rows_ok_same_view)
  have n: "numrows E1 = int (length (row E1))" using ok1 by (simp add: rows_ok_def)
  show ?thesis
  proof (cases "cy E1 < numrows E1")
    case True
    have sz: "0 \<le> size_erow (row E1 ! nat (cy E1))"
      using rows_ok_size_nonneg [OF ok1 c(2) True] .
    show ?thesis using s v c n True sz
      by (auto simp: editorMoveCursor_def row_ptr_def row_at_def cursor_ok_def row_len_def same_view_def)
  next
    case False
    then show ?thesis using s v c n
      by (auto simp: editorMoveCursor_def row_ptr_def cursor_ok_def row_len_def same_view_def)
  qed
qed

lemma cursor_ok_pre: "cursor_ok E \<Longrightarrow> 0 \<le> cx E \<and> 0 \<le> cy E \<and> cy E \<le> numrows E"
  by (simp add: cursor_ok_def)

lemma repeat_move_ok:
  "rows_ok E \<Longrightarrow> 0 \<le> cx E \<Longrightarrow> 0 \<le> cy E \<Longrightarrow> cy E \<le> numrows E \<Longrightarrow>
   \<exists>E'. repeat_move n key E = Inr E' \<and> same_view E E' \<and> (cursor_ok E \<or> 0 < n \<longrightarrow> cursor_ok E')"
proof (induction n arbitrary: E)
  case 0
  then show ?case by (simp add: same_view_def)
next
  case (Suc n)
  obtain E1 where m: "editorMoveCursor key E = Inr E1" and v: "same_view E E1" and c: "cursor_ok E1"
    using editorMoveCursor_ok [OF Suc.prems] by blast
  have ok1: "rows_ok E1" using Suc.prems(1) v by (rule rows_ok_same_view)
  obtain E' where r: "repeat_move n key E1 = Inr E'" and v': "same_view E1 E'"
    and c': "cursor_ok E1 \<or> 0 < n \<longrightarrow> cursor_ok E'"
    using Suc.IH [OF ok1] cursor_ok_pre [OF c] by blast
  have "repeat_move (Suc n) key E = Inr E'" using m r by simp
  moreover have "same_view E E'" using v v' by (rule same_view_trans)
  moreover have "cursor_ok E'" using c c' by simp
  ultimately show ?case by blast
qed

lemma editorProcessKeypress_switch_ok:
  assumes inv: "nav_inv E" and key: "nav_key c"
  shows "\<exists>E'. editorProcessKeypress_switch c E = Inr E' \<and> same_view E E' \<and> cursor_ok E'"
proof -
  have ok: "rows_ok E" and cur: "cursor_ok E" and off: "0 \<le> rowoff E" "rowoff E \<le> numrows E"
    and scr: "1 \<le> screenRows E"
    using inv by (simp_all add: nav_inv_def)
  have n: "numrows E = int (length (row E))" using ok by (simp add: rows_ok_def)
  have pre: "0 \<le> cx E" "0 \<le> cy E" "cy E \<le> numrows E"
    using cursor_ok_pre [OF cur] by simp_all
  have q: "c \<noteq> CTRL_KEY (char_int (CHR ''q''))"
    using key by (auto simp: nav_key_def CTRL_KEY_q editorKey_defs)
  consider (home) "c = HOME_KEY" | (end_key) "c = END_KEY" | (page_up) "c = PAGE_UP"
    | (page_down) "c = PAGE_DOWN"
    | (arrow) "c = ARROW_DOWN \<or> c = ARROW_UP \<or> c = ARROW_LEFT \<or> c = ARROW_RIGHT"
    using key by (auto simp: nav_key_def)
  then show ?thesis
  proof cases
    case home
    have "cursor_ok (E\<lparr>cx := 0\<rparr>)"
      using pre row_len_nonneg [OF ok, of "cy E"]
      by (auto simp: cursor_ok_def row_len_def split: if_splits)
    then show ?thesis using home q
      by (simp add: editorProcessKeypress_switch_def same_view_def)
  next
    case end_key
    have h: "c \<noteq> HOME_KEY" using end_key by (simp add: editorKey_defs)
    show ?thesis
    proof (cases "cy E < numrows E")
      case True
      have "0 \<le> size_erow (row E ! nat (cy E))"
        using rows_ok_size_nonneg [OF ok pre(2) True] .
      then have "cursor_ok (E\<lparr>cx := size_erow (row E ! nat (cy E))\<rparr>)"
        using pre True by (simp add: cursor_ok_def row_len_def)
      then show ?thesis using end_key q h True pre n
        by (simp add: editorProcessKeypress_switch_def same_view_def row_at_def)
    next
      case False
      then show ?thesis using end_key q h cur
        by (simp add: editorProcessKeypress_switch_def same_view_def)
    qed
  next
    case page_up
    define E1 where "E1 = E\<lparr>cy := rowoff E\<rparr>"
    have e: "editorProcessKeypress_switch c E = repeat_move (nat (screenRows E1)) ARROW_UP E1"
      using page_up scr
      by (simp add: editorProcessKeypress_switch_def E1_def editorProcessKeypress_times_repeat
          CTRL_KEY_q PAGE_UP_def HOME_KEY_def END_KEY_def)
    have v1: "same_view E E1" by (simp add: same_view_def E1_def)
    have ok1: "rows_ok E1" using ok v1 by (rule rows_ok_same_view)
    obtain E' where r: "repeat_move (nat (screenRows E1)) ARROW_UP E1 = Inr E'"
      and v: "same_view E1 E'"
      and c': "cursor_ok E1 \<or> 0 < nat (screenRows E1) \<longrightarrow> cursor_ok E'"
      using repeat_move_ok [OF ok1, of "nat (screenRows E1)" ARROW_UP] pre off
      by (auto simp: E1_def)
    have "cursor_ok E'" using c' scr by (simp add: E1_def)
    then show ?thesis using e r same_view_trans [OF v1 v] by simp
  next
    case page_down
    define E1 where "E1 = E\<lparr>cy := min (rowoff E + screenRows E - 1) (numrows E)\<rparr>"
    have e: "editorProcessKeypress_switch c E = repeat_move (nat (screenRows E1)) ARROW_DOWN E1"
      using page_down scr
      by (simp add: editorProcessKeypress_switch_def E1_def editorProcessKeypress_times_repeat
          CTRL_KEY_q PAGE_UP_def PAGE_DOWN_def HOME_KEY_def END_KEY_def Let_def min_def)
    have v1: "same_view E E1" by (simp add: same_view_def E1_def)
    have ok1: "rows_ok E1" using ok v1 by (rule rows_ok_same_view)
    obtain E' where r: "repeat_move (nat (screenRows E1)) ARROW_DOWN E1 = Inr E'"
      and v: "same_view E1 E'"
      and c': "cursor_ok E1 \<or> 0 < nat (screenRows E1) \<longrightarrow> cursor_ok E'"
      using repeat_move_ok [OF ok1, of "nat (screenRows E1)" ARROW_DOWN] pre off scr
      by (auto simp: E1_def)
    have "cursor_ok E'" using c' scr by (simp add: E1_def)
    then show ?thesis using e r same_view_trans [OF v1 v] by simp
  next
    case arrow
    then have e: "editorProcessKeypress_switch c E = editorMoveCursor c E"
      by (auto simp: editorProcessKeypress_switch_def editorKey_defs CTRL_KEY_q)
    show ?thesis using editorMoveCursor_ok [OF ok pre, of c] e by simp
  qed
qed

lemma editorScroll_rx:
  assumes ok: "rows_ok E" and cur: "cursor_ok E"
  shows "\<exists>x. (if cy E < numrows E
              then (case row_at E (cy E) of Inl e \<Rightarrow> Inl e | Inr r \<Rightarrow> editorRowCxToRx r (cx E))
              else Inr 0) = Inr x \<and> 0 \<le> x"
proof (cases "cy E < numrows E")
  case True
  have n: "numrows E = int (length (row E))" using ok by (simp add: rows_ok_def)
  have c: "0 \<le> cy E" "cx E \<le> row_len E (cy E)" using cur by (simp_all add: cursor_ok_def)
  have r: "row_at E (cy E) = Inr (row E ! nat (cy E))" using n c(1) True by (rule row_at_in)
  have "row_ok (row E ! nat (cy E))" using ok c(1) True by (rule rows_ok_row)
  moreover have "cx E \<le> size_erow (row E ! nat (cy E))"
    using c True by (simp add: row_len_def)
  ultimately have "editorRowCxToRx (row E ! nat (cy E)) (cx E)
               = Inr (fold rx_step (take (nat (cx E)) (chars (row E ! nat (cy E)))) 0)"
    by (rule editorRowCxToRx_fold)
  moreover have "0 \<le> fold rx_step (take (nat (cx E)) (chars (row E ! nat (cy E)))) 0"
    by (rule fold_rx_step_nonneg) simp
  ultimately show ?thesis using True r by simp
next
  case False
  then show ?thesis by simp
qed

lemma nav_inv_step: "nav_inv E \<Longrightarrow> same_view E E' \<Longrightarrow> cursor_ok E' \<Longrightarrow> nav_inv E'"
  by (simp add: nav_inv_def same_view_def rows_ok_def)

lemma editorScroll_inv:
  assumes inv: "nav_inv E"
  shows "\<exists>E'. editorScroll E = Inr E' \<and> nav_inv E' \<and> row E' = row E \<and> numrows E' = numrows E"
proof -
  have ok: "rows_ok E" and cur: "cursor_ok E" and off: "0 \<le> rowoff E" "rowoff E \<le> numrows E"
    and scr: "1 \<le> screenRows E"
    using inv by (simp_all add: nav_inv_def)
  have pre: "0 \<le> cx E" "0 \<le> cy E" "cy E \<le> numrows E"
    using cursor_ok_pre [OF cur] by simp_all
  have len: "cx E \<le> row_len E (cy E)" using cur by (simp add: cursor_ok_def)
  obtain x where x: "(if cy E < numrows E
              then (case row_at E (cy E) of Inl e \<Rightarrow> Inl e | Inr r \<Rightarrow> editorRowCxToRx r (cx E))
              else Inr 0) = Inr x"
    using editorScroll_rx [OF ok cur] by blast
  show ?thesis
    unfolding editorScroll_def x using ok pre len off scr
    by (auto simp: Let_def nav_inv_def rows_ok_def cursor_ok_def row_len_def split: if_splits)
qed

lemma process_keys_inv:
  "nav_inv E \<Longrightarrow> list_all nav_key cs \<Longrightarrow>
   \<exists>E'. process_keys cs E = Inr E' \<and> nav_inv E' \<and> row E' = row E \<and> numrows E' = numrows E"
proof (induction cs arbitrary: E)
  case Nil
  then show ?case by simp
next
  case (Cons c cs)
  have k: "nav_key c" and ks: "list_all nav_key cs" using Cons.prems(2) by simp_all
  obtain E1 where s: "editorProcessKeypress_switch c E = Inr E1" and v: "same_view E E1"
    and c1: "cursor_ok E1"
    using editorProcessKeypress_switch_ok [OF Cons.prems(1) k] by blast
  have i1: "nav_inv E1" using Cons.prems(1) v c1 by (rule nav_inv_step)
  obtain E' where r: "process_keys cs E1 = Inr E'" and i': "nav_inv E'"
    and f: "row E' = row E1" "numrows E' = numrows E1"
    using Cons.IH [OF i1 ks] by blast
  show ?case using s r i' f v by (simp add: same_view_def)
qed

lemma main_loop_inv:
  "nav_inv E \<Longrightarrow> list_all nav_key cs \<Longrightarrow>
   \<exists>E'. main_loop cs E = Inr E' \<and> nav_inv E' \<and> row E' = row E \<and> numrows E' = numrows E"
proof (induction cs arbitrary: E)
  case Nil
  then show ?case by simp
next
  case (Cons c cs)
  have k: "nav_key c" and ks: "list_all nav_key cs" using Cons.prems(2) by simp_all
  obtain E0 where s0: "editorScroll E = Inr E0" and i0: "nav_inv E0"
    and f0: "row E0 = row E" "numrows E0 = numrows E"
    using editorScroll_inv [OF Cons.prems(1)] by blast
  obtain E1 where s: "editorProcessKeypress_switch c E0 = Inr E1" and v: "same_view E0 E1"
    and c1: "cursor_ok E1"
    using editorProcessKeypress_switch_ok [OF i0 k] by blast
  have i1: "nav_inv E1" using i0 v c1 by (rule nav_inv_step)
  obtain E' where r: "main_loop cs E1 = Inr E'" and i': "nav_inv E'"
    and f: "row E' = row E1" "numrows E' = numrows E1"
    using Cons.IH [OF i1 ks] by blast
  show ?case using s0 s r i' f f0 v by (simp add: same_view_def)
qed

section \<open>The scenarios\<close>

lemma scenario_state_eq: "scenario_state = Inr scenario_loaded"
  by code_simp

lemma scenario_rows_ok: "rows_ok scenario_loaded"
  by (simp add: scenario_loaded_def rows_ok_def row_ok_def count_tabs_def TAB_def
      KILO_TAB_STOP_def INT_MAX_def)

lemma two_row_start_init: "initEditor (Some (2, 80)) = Inr two_row_start"
  by (simp add: initEditor_def two_row_start_def)

lemma one_row_start_init: "initEditor (Some (1, 80)) = Inr one_row_start"
  by (simp add: initEditor_def one_row_start_def)

section \<open>The claims\<close>

text \<open>
  C1 (as amended). Loading the three-line file gives row 0 the rendered form
  \<open>a\<close>, seven spaces, \<open>b\<close>, of 9 characters; content column 2 of row 0 is rendered
  column 8, and content column 3 is rendered column 9.
\<close>

theorem scenario_render_and_cx_to_rx:
  "scenario_state = Inr scenario_loaded
   \<and> render (row scenario_loaded ! 0) = CHR ''a'' # replicate 7 (CHR '' '') @ [CHR ''b'']
   \<and> length (render (row scenario_loaded ! 0)) = 9
   \<and> rsize (row scenario_loaded ! 0) = 9
   \<and> cx_to_rx scenario_loaded 0 2 = Inr 8
   \<and> cx_to_rx scenario_loaded 0 3 = Inr 9"
proof -
  have "render (row scenario_loaded ! 0) = CHR ''a'' # replicate 7 (CHR '' '') @ [CHR ''b'']"
    by code_simp
  moreover have "length (render (row scenario_loaded ! 0)) = 9"
    by code_simp
  moreover have "rsize (row scenario_loaded ! 0) = 9"
    by code_simp
  moreover have "cx_to_rx scenario_loaded 0 2 = Inr 8"
    by code_simp
  moreover have "cx_to_rx scenario_loaded 0 3 = Inr 9"
    by code_simp
  ultimately show ?thesis using scenario_state_eq by simp
qed

theorem scenario_cx_to_rx_2_is_not_9:
  "scenario_state = Inr scenario_loaded \<and> cx_to_rx scenario_loaded 0 2 \<noteq> Inr 9"
proof -
  have "cx_to_rx scenario_loaded 0 2 = Inr 8"
    by code_simp
  then show ?thesis using scenario_state_eq by simp
qed

text \<open>
  C2 (as amended). From a state with the rows as loaded, \<open>cx = 0\<close>, \<open>cy = 0\<close>, the first
  visible row \<open>rowoff\<close> between 0 and \<open>numrows\<close>, and at least one text row on the screen,
  every list of navigation keys is processed without a fault, by the \<open>switch\<close> of
  \<open>editorProcessKeypress\<close> alone and by the loop of \<open>main\<close>, which scrolls before every
  key; in the state reached the rows are the same, \<open>0 \<le> cx \<le> row_len(cy)\<close> and
  \<open>0 \<le> cy \<le> numrows\<close>.
\<close>

theorem navigation_keeps_cursor_in_range:
  assumes "rows_ok E" and "cx E = 0" and "cy E = 0"
    and "0 \<le> rowoff E" and "rowoff E \<le> numrows E" and "1 \<le> screenRows E"
    and "list_all nav_key cs"
  shows "(\<exists>E'. process_keys cs E = Inr E' \<and> row E' = row E \<and> numrows E' = numrows E
               \<and> 0 \<le> cx E' \<and> cx E' \<le> row_len E' (cy E') \<and> 0 \<le> cy E' \<and> cy E' \<le> numrows E')
       \<and> (\<exists>E'. main_loop cs E = Inr E' \<and> row E' = row E \<and> numrows E' = numrows E
               \<and> 0 \<le> cx E' \<and> cx E' \<le> row_len E' (cy E') \<and> 0 \<le> cy E' \<and> cy E' \<le> numrows E')"
proof -
  have "0 \<le> row_len E 0" using assms(1) by (rule row_len_nonneg)
  then have "cursor_ok E" using assms(2-5) by (simp add: cursor_ok_def)
  then have inv: "nav_inv E" using assms by (simp add: nav_inv_def)
  show ?thesis
    using process_keys_inv [OF inv assms(7)] main_loop_inv [OF inv assms(7)]
    by (auto simp: nav_inv_def cursor_ok_def)
qed

theorem navigation_keeps_cursor_in_range_witness:
  "rows_ok scenario_loaded \<and> cx scenario_loaded = 0 \<and> cy scenario_loaded = 0
   \<and> 0 \<le> rowoff scenario_loaded \<and> rowoff scenario_loaded \<le> numrows scenario_loaded
   \<and> 1 \<le> screenRows scenario_loaded
   \<and> list_all nav_key [ARROW_DOWN, END_KEY, PAGE_DOWN, ARROW_LEFT, PAGE_UP, ARROW_RIGHT, HOME_KEY, ARROW_UP]
   \<and> (\<exists>E'. main_loop [ARROW_DOWN, END_KEY, PAGE_DOWN, ARROW_LEFT, PAGE_UP, ARROW_RIGHT, HOME_KEY, ARROW_UP]
               scenario_loaded = Inr E'
           \<and> 0 \<le> cx E' \<and> cx E' \<le> row_len E' (cy E') \<and> 0 \<le> cy E' \<and> cy E' \<le> numrows E')"
proof -
  have a: "cx scenario_loaded = 0" "cy scenario_loaded = 0" "0 \<le> rowoff scenario_loaded"
    "rowoff scenario_loaded \<le> numrows scenario_loaded" "1 \<le> screenRows scenario_loaded"
    by (simp_all add: scenario_loaded_def)
  have k: "list_all nav_key [ARROW_DOWN, END_KEY, PAGE_DOWN, ARROW_LEFT, PAGE_UP, ARROW_RIGHT, HOME_KEY, ARROW_UP]"
    by (simp add: nav_key_def)
  show ?thesis
    using scenario_rows_ok a k navigation_keeps_cursor_in_range [OF scenario_rows_ok a k]
    by blast
qed

theorem page_keys_leave_range_on_two_row_terminal:
  "initEditor (Some (2, 80)) = Inr two_row_start
   \<and> cx two_row_start = 0 \<and> cy two_row_start = 0
   \<and> nav_key PAGE_DOWN
   \<and> process_keys [PAGE_DOWN] two_row_start = Inr (two_row_start\<lparr>cy := - 1\<rparr>)
   \<and> \<not> 0 \<le> cy (two_row_start\<lparr>cy := - 1\<rparr>)
   \<and> nav_key PAGE_UP
   \<and> main_loop [PAGE_UP] two_row_start = Inr (two_row_start\<lparr>rowoff := 1, cy := 1\<rparr>)
   \<and> \<not> cy (two_row_start\<lparr>rowoff := 1, cy := 1\<rparr>) \<le> numrows (two_row_start\<lparr>rowoff := 1, cy := 1\<rparr>)"
proof -
  have d: "process_keys [PAGE_DOWN] two_row_start = Inr (two_row_start\<lparr>cy := - 1\<rparr>)"
    by code_simp
  have u: "main_loop [PAGE_UP] two_row_start = Inr (two_row_start\<lparr>rowoff := 1, cy := 1\<rparr>)"
    by code_simp
  show ?thesis using d u two_row_start_init
    by (simp add: nav_key_def two_row_start_def)
qed

text \<open>
  C3. In a state with the rows as loaded and the cursor in range, on a screen of at least
  one text row and one column, \<open>editorScroll\<close> returns; it leaves the cursor and the
  screen size as they are, sets \<open>rx\<close> to what \<open>editorRowCxToRx\<close> gives for \<open>cx\<close> on row
  \<open>cy\<close> (0 past the last row), and then \<open>rowoff \<le> cy < rowoff + screenRows\<close> and
  \<open>coloff \<le> rx < coloff + screenCols\<close>.
\<close>

theorem scroll_keeps_cursor_visible:
  assumes "rows_ok E" and "cursor_ok E" and "1 \<le> screenRows E" and "1 \<le> screenCols E"
  shows "\<exists>E'. editorScroll E = Inr E' \<and> cx E' = cx E \<and> cy E' = cy E
              \<and> screenRows E' = screenRows E \<and> screenCols E' = screenCols E
              \<and> Inr (rx E') = (if cy E < numrows E then cx_to_rx E (cy E) (cx E) else Inr 0)
              \<and> rowoff E' \<le> cy E' \<and> cy E' < rowoff E' + screenRows E'
              \<and> coloff E' \<le> rx E' \<and> rx E' < coloff E' + screenCols E'"
proof -
  obtain x where x: "(if cy E < numrows E
              then (case row_at E (cy E) of Inl e \<Rightarrow> Inl e | Inr r \<Rightarrow> editorRowCxToRx r (cx E))
              else Inr 0) = Inr x"
    using editorScroll_rx [OF assms(1,2)] by blast
  have c: "(if cy E < numrows E then cx_to_rx E (cy E) (cx E) else Inr 0) = Inr x"
    using x by (auto simp: cx_to_rx_def split: if_splits)
  show ?thesis
    unfolding editorScroll_def x c using assms(3,4)
    by (simp add: Let_def)
qed

theorem scroll_keeps_cursor_visible_witness:
  "rows_ok (scenario_loaded\<lparr>cx := 2, rowoff := 2, coloff := 20\<rparr>)
   \<and> cursor_ok (scenario_loaded\<lparr>cx := 2, rowoff := 2, coloff := 20\<rparr>)
   \<and> 1 \<le> screenRows (scenario_loaded\<lparr>cx := 2, rowoff := 2, coloff := 20\<rparr>)
   \<and> 1 \<le> screenCols (scenario_loaded\<lparr>cx := 2, rowoff := 2, coloff := 20\<rparr>)
   \<and> (\<exists>E'. editorScroll (scenario_loaded\<lparr>cx := 2, rowoff := 2, coloff := 20\<rparr>) = Inr E'
           \<and> rowoff E' \<le> cy E' \<and> cy E' < rowoff E' + screenRows E'
           \<and> coloff E' \<le> rx E' \<and> rx E' < coloff E' + screenCols E')"
proof -
  have a: "rows_ok (scenario_loaded\<lparr>cx := 2, rowoff := 2, coloff := 20\<rparr>)"
    using scenario_rows_ok by (simp add: rows_ok_def)
  have b: "cursor_ok (scenario_loaded\<lparr>cx := 2, rowoff := 2, coloff := 20\<rparr>)"
    by (simp add: scenario_loaded_def cursor_ok_def row_len_def)
  have c: "1 \<le> screenRows (scenario_loaded\<lparr>cx := 2, rowoff := 2, coloff := 20\<rparr>)"
    by (simp add: scenario_loaded_def)
  have d: "1 \<le> screenCols (scenario_loaded\<lparr>cx := 2, rowoff := 2, coloff := 20\<rparr>)"
    by (simp add: scenario_loaded_def)
  show ?thesis using a b c d scroll_keeps_cursor_visible [OF a b c d] by blast
qed

text \<open>
  C4. On a row as the loader builds it (\<open>size\<close> is the number of its bytes, and the
  size of its \<open>render\<close> buffer is an \<open>int\<close>), for columns \<open>a \<le> b\<close> up to \<open>size\<close>,
  \<open>editorRowCxToRx\<close> returns at both, with a result at \<open>a\<close> that is at most the one
  at \<open>b\<close>; and when \<open>b = a + 1\<close> and the byte at \<open>a\<close> is a tab, the result grows by at
  least 1 and at most \<open>KILO_TAB_STOP\<close>, to a multiple of \<open>KILO_TAB_STOP\<close>. (No other row
  is ever built: see \<open>editorUpdateRow_overflow\<close>.)
\<close>

theorem cx_to_rx_monotone_and_tab_stops:
  assumes "row_ok r" and "a \<le> b" and "b \<le> size_erow r"
  shows "\<exists>x y. editorRowCxToRx r a = Inr x \<and> editorRowCxToRx r b = Inr y \<and> 0 \<le> x \<and> x \<le> y
           \<and> y \<le> INT_MAX
           \<and> (0 \<le> a \<and> b = a + 1 \<and> chars r ! nat a = TAB \<longrightarrow>
                1 \<le> y - x \<and> y - x \<le> KILO_TAB_STOP \<and> y smod KILO_TAB_STOP = 0)"
proof -
  define x where "x = fold rx_step (take (nat a) (chars r)) 0"
  define y where "y = fold rx_step (take (nat b) (chars r)) 0"
  have wf: "size_erow r = int (length (chars r))" using assms(1) by (simp add: row_ok_def)
  have xa: "editorRowCxToRx r a = Inr x"
    unfolding x_def using assms by (intro editorRowCxToRx_fold) simp_all
  have yb: "editorRowCxToRx r b = Inr y"
    unfolding y_def using assms by (intro editorRowCxToRx_fold) simp_all
  have ym: "y \<le> INT_MAX"
    unfolding y_def using rendered_width_in_int [OF assms(1), of "nat b"] by simp
  have x0: "0 \<le> x" unfolding x_def by (rule fold_rx_step_nonneg) simp
  have split: "take (nat b) (chars r) = take (nat a) (chars r) @ drop (nat a) (take (nat b) (chars r))"
  proof -
    have "take (nat a) (take (nat b) (chars r)) = take (nat a) (chars r)"
      using assms(2) by (simp add: min_def)
    then show ?thesis
      using append_take_drop_id [of "nat a" "take (nat b) (chars r)"] by simp
  qed
  have y_from_x: "y = fold rx_step (drop (nat a) (take (nat b) (chars r))) x"
    unfolding y_def x_def by (subst split) simp
  have xy: "x \<le> y" unfolding y_from_x using x0 by (rule fold_rx_step_mono)
  have tab: "1 \<le> y - x \<and> y - x \<le> KILO_TAB_STOP \<and> y smod KILO_TAB_STOP = 0"
    if h: "0 \<le> a" "b = a + 1" "chars r ! nat a = TAB"
  proof -
    have "drop (nat a) (take (nat b) (chars r)) = chars r ! nat a # drop (nat (a + 1)) (take (nat b) (chars r))"
      using h assms(2,3) wf by (intro drop_take_step) simp_all
    also have "drop (nat (a + 1)) (take (nat b) (chars r)) = []"
      using h by simp
    finally have "y = rx_step TAB x" using y_from_x h by simp
    then show ?thesis
      using rx_step_bounds [of x TAB] rx_step_TAB_multiple [of x] x0 by simp
  qed
  show ?thesis using xa yb x0 xy ym tab by blast
qed

theorem cx_to_rx_monotone_and_tab_stops_witness:
  "row_ok \<lparr>size_erow = 3, rsize = 0, chars = [CHR ''a'', TAB, CHR ''b''], render = []\<rparr>
   \<and> (1::int) \<le> 2
   \<and> 2 \<le> size_erow \<lparr>size_erow = 3, rsize = 0, chars = [CHR ''a'', TAB, CHR ''b''], render = []\<rparr>
   \<and> chars \<lparr>size_erow = 3, rsize = 0, chars = [CHR ''a'', TAB, CHR ''b''], render = []\<rparr> ! nat 1 = TAB
   \<and> (\<exists>x y. editorRowCxToRx \<lparr>size_erow = 3, rsize = 0, chars = [CHR ''a'', TAB, CHR ''b''], render = []\<rparr> 1 = Inr x
            \<and> editorRowCxToRx \<lparr>size_erow = 3, rsize = 0, chars = [CHR ''a'', TAB, CHR ''b''], render = []\<rparr> 2 = Inr y
            \<and> x \<le> y \<and> 1 \<le> y - x \<and> y - x \<le> KILO_TAB_STOP \<and> y smod KILO_TAB_STOP = 0)"
proof -
  have ok: "row_ok \<lparr>size_erow = 3, rsize = 0, chars = [CHR ''a'', TAB, CHR ''b''], render = []\<rparr>"
    by (simp add: row_ok_def count_tabs_def TAB_def KILO_TAB_STOP_def INT_MAX_def)
  have le: "(1::int) \<le> 2" "2 \<le> size_erow \<lparr>size_erow = 3, rsize = 0, chars = [CHR ''a'', TAB, CHR ''b''], render = []\<rparr>"
    by simp_all
  show ?thesis
    using ok cx_to_rx_monotone_and_tab_stops [OF ok le] by auto
qed

text \<open>
  C5. The bytes ESC \<open>[\<close> \<open>5\<close> \<open>~\<close> are decoded as \<open>PAGE_UP\<close>. When a read after
  ESC times out, whether it is the read of the second byte, of the third, or of the
  byte after ESC \<open>[\<close> and a digit (ESC \<open>[\<close> \<open>5\<close> among them), the key is the escape
  character, 27, which is none of the keys of \<open>editorKey\<close>.
\<close>

theorem editorReadKey_page_up_and_incomplete:
  "editorReadKey (Byte ESC # Byte (CHR ''['') # Byte (CHR ''5'') # Byte (CHR ''~'') # rest)
     = Inr (PAGE_UP, rest)
   \<and> editorReadKey (Byte ESC # Byte (CHR ''['') # Byte (CHR ''5'') # Timeout # rest)
     = Inr (char_int ESC, rest)
   \<and> editorReadKey [Byte ESC, Byte (CHR ''[''), Byte (CHR ''5'')] = Inr (char_int ESC, [])
   \<and> editorReadKey (Byte ESC # Timeout # rest) = Inr (char_int ESC, rest)
   \<and> editorReadKey (Byte ESC # Byte a # Timeout # rest) = Inr (char_int ESC, rest)
   \<and> (is_digit d \<longrightarrow>
        editorReadKey (Byte ESC # Byte (CHR ''['') # Byte d # Timeout # rest)
          = Inr (char_int ESC, rest))
   \<and> char_int ESC = 27
   \<and> char_int ESC \<notin> {ARROW_LEFT, ARROW_RIGHT, ARROW_UP, ARROW_DOWN, DEL_KEY, HOME_KEY,
                        END_KEY, PAGE_UP, PAGE_DOWN}"
  by (simp add: editorReadKey_def ESC_def char_int_def is_digit_def editorKey_defs)

theorem editorReadKey_page_up_and_incomplete_witness:
  "is_digit (CHR ''3'')
   \<and> editorReadKey [Byte ESC, Byte (CHR ''[''), Byte (CHR ''3''), Timeout, Byte (CHR ''~'')]
       = Inr (27, [Byte (CHR ''~'')])
   \<and> editorReadKey [Byte ESC, Byte (CHR ''[''), Byte (CHR ''5''), Byte (CHR ''~'')]
       = Inr (PAGE_UP, [])"
  using editorReadKey_page_up_and_incomplete [of "[]" "CHR ''[''" "CHR ''3''"]
        editorReadKey_page_up_and_incomplete [of "[Byte (CHR ''~'')]" "CHR ''[''" "CHR ''3''"]
  by (simp add: is_digit_def char_int_def)

text \<open>
  C6 (as amended). When the file can be opened, the row store is empty, every line of the
  file is one whose row can be built (for the stripped line, \<open>size + tabs *
  (KILO_TAB_STOP - 1) + 1\<close> is an \<open>int\<close>) and the number of lines is an \<open>int\<close>,
  \<open>editorOpen\<close> returns, and the row store then has one row for each line of the file, in
  the order of the file: \<open>numrows\<close> and the number of rows are the number of lines, and the
  bytes of row \<open>i\<close> are line \<open>i\<close> without the carriage returns and line feeds at its end.
\<close>

theorem editorOpen_rows_are_stripped_lines:
  assumes "fs name = Some bytes" and "numrows E = 0" and "row E = []" and "file_fits bytes"
  shows "\<exists>E'. editorOpen fs name E = Inr E'
              \<and> numrows E' = int (length (file_lines bytes))
              \<and> length (row E') = length (file_lines bytes)
              \<and> map chars (row E') = map strip_crlf (file_lines bytes)
              \<and> list_all row_ok (row E')"
proof -
  have ok: "rows_ok (E\<lparr>filename := Some name\<rparr>)"
    using assms(2,3) by (simp add: rows_ok_def)
  have fits: "list_all line_fits (file_lines bytes)"
    and count: "numrows (E\<lparr>filename := Some name\<rparr>) + int (length (file_lines bytes)) \<le> INT_MAX"
    using assms(2,4) by (simp_all add: file_fits_def)
  obtain E' where l: "editorOpen_loop bytes (E\<lparr>filename := Some name\<rparr>) = Inr E'"
    and ok': "rows_ok E'"
    and m: "map chars (row E') = map chars (row (E\<lparr>filename := Some name\<rparr>)) @ map strip_crlf (file_lines bytes)"
    using editorOpen_loop_ok [OF ok fits count] by blast
  have m': "map chars (row E') = map strip_crlf (file_lines bytes)"
    using m assms(3) by simp
  have len: "length (row E') = length (file_lines bytes)"
    using arg_cong [OF m', of length] by simp
  have "editorOpen fs name E = Inr E'" using assms(1) l by (simp add: editorOpen_def)
  then show ?thesis using ok' m' len by (simp add: rows_ok_def)
qed

theorem editorOpen_rows_are_stripped_lines_witness:
  "scenario_fs ''file.txt'' = Some scenario_file
   \<and> numrows start_state = 0 \<and> row start_state = []
   \<and> file_fits scenario_file
   \<and> file_lines scenario_file = [[CHR ''a'', TAB, CHR ''b'', LF], ''short'' @ [LF], ''last'' @ [LF]]
   \<and> (\<exists>E'. editorOpen scenario_fs ''file.txt'' start_state = Inr E'
           \<and> numrows E' = 3
           \<and> map chars (row E') = [[CHR ''a'', TAB, CHR ''b''], ''short'', ''last''])"
proof -
  have a: "scenario_fs ''file.txt'' = Some scenario_file" by (simp add: scenario_fs_def)
  have b: "numrows start_state = 0" "row start_state = []"
    by (simp_all add: start_state_def)
  have c: "file_lines scenario_file = [[CHR ''a'', TAB, CHR ''b'', LF], ''short'' @ [LF], ''last'' @ [LF]]"
    by code_simp
  have d: "map strip_crlf [[CHR ''a'', TAB, CHR ''b'', LF], ''short'' @ [LF], ''last'' @ [LF]]
             = [[CHR ''a'', TAB, CHR ''b''], ''short'', ''last'']"
    by code_simp
  have e: "file_fits scenario_file"
    by code_simp
  show ?thesis
    using a b c d e
      editorOpen_rows_are_stripped_lines
        [of scenario_fs "''file.txt''" scenario_file start_state, OF a b e]
    by auto
qed

theorem editorOpen_faults_on_long_line_of_tabs:
  "initEditor (Some (24, 80)) = Inr start_state
   \<and> tabs_fs ''tabs.txt'' = Some tabs_file
   \<and> numrows start_state = 0 \<and> row start_state = []
   \<and> length tabs_file = 268435456
   \<and> file_lines tabs_file = [tabs_file]
   \<and> editorOpen tabs_fs ''tabs.txt'' start_state = Inl Int_Overflow"
proof -
  have i: "initEditor (Some (24, 80)) = Inr start_state"
    by (simp add: initEditor_def start_state_def)
  have a: "tabs_fs ''tabs.txt'' = Some tabs_file" by (simp add: tabs_fs_def)
  have b: "numrows (start_state\<lparr>filename := Some ''tabs.txt''\<rparr>) = 0"
    "row (start_state\<lparr>filename := Some ''tabs.txt''\<rparr>) = []"
    "numrows start_state = 0" "row start_state = []"
    by (simp_all add: start_state_def)
  have n: "(0::nat) < 268435456" "int 268435456 \<le> INT_MAX"
    "INT_MAX < int 268435456 * KILO_TAB_STOP + 1"
    by (simp_all add: INT_MAX_def KILO_TAB_STOP_def)
  have len: "length tabs_file = 268435456" by (simp add: tabs_file_def)
  have "getline tabs_file = Some (tabs_file, [])"
    unfolding tabs_file_def using n(1) by (rule getline_tabs)
  then have fl: "file_lines tabs_file = [tabs_file]"
    using getline_file_lines [of tabs_file tabs_file "[]"] by simp
  have "editorOpen_loop tabs_file (start_state\<lparr>filename := Some ''tabs.txt''\<rparr>) = Inl Int_Overflow"
    unfolding tabs_file_def using n b(1,2) by (rule editorOpen_loop_tabs)
  then have "editorOpen tabs_fs ''tabs.txt'' start_state = Inl Int_Overflow"
    using a by (simp add: editorOpen_def)
  then show ?thesis using i a b(3,4) len fl by simp
qed

text \<open>
  C7. In a state whose cursor is in range, \<open>editorMoveCursor\<close> on \<open>ARROW_LEFT\<close>
  returns: with \<open>cx > 0\<close> the state with \<open>cx - 1\<close>; with \<open>cx = 0\<close> and \<open>cy > 0\<close> the
  state with \<open>cy - 1\<close> and \<open>cx\<close> the length of that row; with both 0 the same state.
  The \<open>switch\<close> of \<open>editorProcessKeypress\<close> does the same.
\<close>

theorem move_left:
  assumes "numrows E = int (length (row E))" and "cursor_ok E"
  shows "editorMoveCursor ARROW_LEFT E =
           Inr (if cx E > 0 then E\<lparr>cx := cx E - 1\<rparr>
                else if cy E > 0 then E\<lparr>cy := cy E - 1, cx := row_len E (cy E - 1)\<rparr>
                else E)
         \<and> editorProcessKeypress_switch ARROW_LEFT E = editorMoveCursor ARROW_LEFT E"
proof -
  have c: "0 \<le> cx E" "cx E \<le> row_len E (cy E)" "0 \<le> cy E" "cy E \<le> numrows E"
    using assms(2) by (simp_all add: cursor_ok_def)
  have m: "editorMoveCursor ARROW_LEFT E =
           Inr (if cx E > 0 then E\<lparr>cx := cx E - 1\<rparr>
                else if cy E > 0 then E\<lparr>cy := cy E - 1, cx := row_len E (cy E - 1)\<rparr>
                else E)"
  proof (cases "cx E > 0")
    case True
    then have "cy E < numrows E" using c(2) by (auto simp: row_len_def split: if_splits)
    then show ?thesis using True c assms(1)
      by (simp add: editorMoveCursor_def editorMoveCursor_switch_def row_ptr_def row_at_def row_len_def)
  next
    case False
    then have z: "cx E = 0" using c(1) by simp
    show ?thesis
    proof (cases "cy E > 0")
      case True
      then show ?thesis using z c assms(1)
        by (simp add: editorMoveCursor_def editorMoveCursor_switch_def row_ptr_def row_at_def row_len_def)
    next
      case False
      then show ?thesis using z c assms(1)
        by (auto simp: editorMoveCursor_def editorMoveCursor_switch_def row_ptr_def row_at_def row_len_def)
    qed
  qed
  have "editorProcessKeypress_switch ARROW_LEFT E = editorMoveCursor ARROW_LEFT E"
    by (simp add: editorProcessKeypress_switch_def editorKey_defs CTRL_KEY_q)
  then show ?thesis using m by simp
qed

theorem move_left_witness:
  "numrows (scenario_loaded\<lparr>cy := 1\<rparr>) = int (length (row (scenario_loaded\<lparr>cy := 1\<rparr>)))
   \<and> cursor_ok (scenario_loaded\<lparr>cy := 1\<rparr>)
   \<and> editorMoveCursor ARROW_LEFT (scenario_loaded\<lparr>cy := 1\<rparr>) = Inr (scenario_loaded\<lparr>cy := 0, cx := 3\<rparr>)"
proof -
  have a: "numrows (scenario_loaded\<lparr>cy := 1\<rparr>) = int (length (row (scenario_loaded\<lparr>cy := 1\<rparr>)))"
    by (simp add: scenario_loaded_def)
  have b: "cursor_ok (scenario_loaded\<lparr>cy := 1\<rparr>)"
    by (simp add: scenario_loaded_def cursor_ok_def row_len_def)
  show ?thesis using a b move_left [OF a b]
    by (simp add: scenario_loaded_def row_len_def)
qed

text \<open>
  C8 (as amended). With \<open>screenRows\<close> not negative, the \<open>switch\<close> of \<open>editorProcessKeypress\<close> on
  \<open>PAGE_UP\<close> sets \<open>cy\<close> to \<open>rowoff\<close> and then runs \<open>editorMoveCursor\<close> on \<open>ARROW_UP\<close>
  \<open>screenRows\<close> times; on \<open>PAGE_DOWN\<close> it sets \<open>cy\<close> to the smaller of
  \<open>rowoff + screenRows - 1\<close> and \<open>numrows\<close> and then runs \<open>editorMoveCursor\<close> on
  \<open>ARROW_DOWN\<close> \<open>screenRows\<close> times. Each of these moves is the move of the arrow
  key, with its clamp of \<open>cx\<close>.
\<close>

theorem page_keys_snap_then_repeat:
  assumes "0 \<le> screenRows E"
  shows "editorProcessKeypress_switch PAGE_UP E = page_up_spec E
         \<and> editorProcessKeypress_switch PAGE_DOWN E = page_down_spec E
         \<and> editorProcessKeypress_switch ARROW_UP E = editorMoveCursor ARROW_UP E
         \<and> editorProcessKeypress_switch ARROW_DOWN E = editorMoveCursor ARROW_DOWN E"
proof -
  have up: "editorProcessKeypress_switch PAGE_UP E = page_up_spec E"
    using assms
    by (simp add: editorProcessKeypress_switch_def page_up_spec_def
        editorProcessKeypress_times_repeat CTRL_KEY_q PAGE_UP_def PAGE_DOWN_def HOME_KEY_def END_KEY_def)
  have down: "editorProcessKeypress_switch PAGE_DOWN E = page_down_spec E"
    using assms
    by (simp add: editorProcessKeypress_switch_def page_down_spec_def
        editorProcessKeypress_times_repeat CTRL_KEY_q PAGE_UP_def PAGE_DOWN_def HOME_KEY_def END_KEY_def
        Let_def min_def)
  have "editorProcessKeypress_switch ARROW_UP E = editorMoveCursor ARROW_UP E"
    and "editorProcessKeypress_switch ARROW_DOWN E = editorMoveCursor ARROW_DOWN E"
    by (simp_all add: editorProcessKeypress_switch_def editorKey_defs CTRL_KEY_q)
  then show ?thesis using up down by simp
qed

theorem page_keys_snap_then_repeat_witness:
  "0 \<le> screenRows (scenario_loaded\<lparr>screenRows := 2\<rparr>)
   \<and> editorProcessKeypress_switch PAGE_DOWN (scenario_loaded\<lparr>screenRows := 2\<rparr>)
       = page_down_spec (scenario_loaded\<lparr>screenRows := 2\<rparr>)
   \<and> page_down_spec (scenario_loaded\<lparr>screenRows := 2\<rparr>)
       = Inr (scenario_loaded\<lparr>screenRows := 2, cy := 3\<rparr>)
   \<and> editorProcessKeypress_switch PAGE_UP (scenario_loaded\<lparr>screenRows := 2, cy := 3\<rparr>)
       = page_up_spec (scenario_loaded\<lparr>screenRows := 2, cy := 3\<rparr>)"
proof -
  have a: "0 \<le> screenRows (scenario_loaded\<lparr>screenRows := 2\<rparr>)"
    by (simp add: scenario_loaded_def)
  have b: "0 \<le> screenRows (scenario_loaded\<lparr>screenRows := 2, cy := 3\<rparr>)"
    by (simp add: scenario_loaded_def)
  have c: "page_down_spec (scenario_loaded\<lparr>screenRows := 2\<rparr>)
       = Inr (scenario_loaded\<lparr>screenRows := 2, cy := 3\<rparr>)"
    by code_simp
  show ?thesis
    using a c page_keys_snap_then_repeat [OF a] page_keys_snap_then_repeat [OF b] by simp
qed

theorem page_up_on_one_row_terminal:
  "initEditor (Some (1, 80)) = Inr one_row_start
   \<and> screenRows one_row_start = - 1
   \<and> editorProcessKeypress_switch PAGE_UP one_row_start = Inl Int_Overflow
   \<and> page_up_spec one_row_start = Inr one_row_start
   \<and> editorProcessKeypress_switch PAGE_UP one_row_start \<noteq> page_up_spec one_row_start"
proof -
  have e: "one_row_start\<lparr>cy := rowoff one_row_start\<rparr> = one_row_start"
    by (simp add: one_row_start_def)
  have m: "editorMoveCursor (if PAGE_UP = PAGE_UP then ARROW_UP else ARROW_DOWN) one_row_start
             = Inr one_row_start"
    by (simp add: editorMoveCursor_def editorMoveCursor_switch_def row_ptr_def one_row_start_def
        editorKey_defs)
  have t: "editorProcessKeypress_times (- 1) PAGE_UP one_row_start = Inl Int_Overflow"
    using m by (intro editorProcessKeypress_times_negative) simp_all
  have s: "screenRows one_row_start = - 1" by (simp add: one_row_start_def)
  have c: "editorProcessKeypress_switch PAGE_UP one_row_start = Inl Int_Overflow"
    using t e s
    by (simp add: editorProcessKeypress_switch_def CTRL_KEY_q PAGE_UP_def HOME_KEY_def END_KEY_def)
  have p: "page_up_spec one_row_start = Inr one_row_start"
    using e s by (simp add: page_up_spec_def)
  show ?thesis using one_row_start_init s c p by simp
qed

text \<open>
  C9. The bytes ESC \<open>[\<close> \<open>3\<close> \<open>~\<close> are decoded as \<open>DEL_KEY\<close>, and the \<open>switch\<close> of
  \<open>editorProcessKeypress\<close> on \<open>DEL_KEY\<close> returns the state it was given: every
  field of the editor state is as before.
\<close>

theorem editorProcessKeypress_delete_unchanged:
  "editorReadKey (Byte ESC # Byte (CHR ''['') # Byte (CHR ''3'') # Byte (CHR ''~'') # rest)
     = Inr (DEL_KEY, rest)
   \<and> editorProcessKeypress_switch DEL_KEY E = Inr E
   \<and> editorProcessKeypress
        (Byte ESC # Byte (CHR ''['') # Byte (CHR ''3'') # Byte (CHR ''~'') # rest) E
     = Inr (rest, E)"
proof -
  have k: "editorReadKey (Byte ESC # Byte (CHR ''['') # Byte (CHR ''3'') # Byte (CHR ''~'') # rest)
     = Inr (DEL_KEY, rest)"
    by (simp add: editorReadKey_def ESC_def char_int_def)
  have s: "editorProcessKeypress_switch DEL_KEY E = Inr E"
    by (simp add: editorProcessKeypress_switch_def editorKey_defs CTRL_KEY_q)
  show ?thesis using k s by (simp add: editorProcessKeypress_def)
qed

text \<open>
  C10. For a row whose \<open>size\<close> is the number of its bytes and for which the size of the
  \<open>render\<close> buffer, \<open>size + tabs * (KILO_TAB_STOP - 1) + 1\<close>, is an \<open>int\<close>,
  \<open>editorUpdateRow\<close> returns, and on the row it returns \<open>editorRowCxToRx\<close> at the column
  \<open>size\<close> is \<open>rsize\<close>, which is the length of \<open>render\<close>. (For every other row of that
  shape \<open>editorUpdateRow\<close> faults and no row is built: see \<open>editorUpdateRow_overflow\<close>.)
\<close>

theorem cx_to_rx_at_size_is_rsize:
  assumes "size_erow r = int (length (chars r))"
    and "size_erow r + count_tabs (chars r) * (KILO_TAB_STOP - 1) + 1 \<le> INT_MAX"
  shows "\<exists>r'. editorUpdateRow r = Inr r' \<and> size_erow r' = size_erow r \<and> chars r' = chars r
              \<and> rsize r' = int (length (render r'))
              \<and> editorRowCxToRx r' (size_erow r') = Inr (rsize r')"
proof -
  define r' where "r' = r\<lparr>render := fold render_step (chars r) [],
                          rsize := int (length (fold render_step (chars r) []))\<rparr>"
  have u: "editorUpdateRow r = Inr r'"
    unfolding r'_def using assms by (rule editorUpdateRow_ok)
  have ok': "row_ok r'" using assms by (simp add: row_ok_def r'_def)
  have "editorRowCxToRx r' (size_erow r') = Inr (fold rx_step (take (nat (size_erow r')) (chars r')) 0)"
    using ok' by (rule editorRowCxToRx_fold) simp
  also have "take (nat (size_erow r')) (chars r') = chars r"
    by (simp add: r'_def assms)
  also have "fold rx_step (chars r) 0 = int (length (fold render_step (chars r) []))"
    using fold_rx_step_length [of "chars r" "[]"] by simp
  finally have "editorRowCxToRx r' (size_erow r') = Inr (rsize r')"
    by (simp add: r'_def)
  then show ?thesis using u by (simp add: r'_def)
qed

theorem cx_to_rx_at_size_is_rsize_witness:
  "size_erow \<lparr>size_erow = 3, rsize = 0, chars = [CHR ''a'', TAB, CHR ''b''], render = []\<rparr> = int (length (chars \<lparr>size_erow = 3, rsize = 0, chars = [CHR ''a'', TAB, CHR ''b''], render = []\<rparr>))
   \<and> size_erow \<lparr>size_erow = 3, rsize = 0, chars = [CHR ''a'', TAB, CHR ''b''], render = []\<rparr> + count_tabs (chars \<lparr>size_erow = 3, rsize = 0, chars = [CHR ''a'', TAB, CHR ''b''], render = []\<rparr>) * (KILO_TAB_STOP - 1) + 1 \<le> INT_MAX
   \<and> (\<exists>r'. editorUpdateRow \<lparr>size_erow = 3, rsize = 0, chars = [CHR ''a'', TAB, CHR ''b''], render = []\<rparr> = Inr r'
           \<and> editorRowCxToRx r' (size_erow r') = Inr (rsize r'))"
proof -
  have a: "size_erow \<lparr>size_erow = 3, rsize = 0, chars = [CHR ''a'', TAB, CHR ''b''], render = []\<rparr> = int (length (chars \<lparr>size_erow = 3, rsize = 0, chars = [CHR ''a'', TAB, CHR ''b''], render = []\<rparr>))"
    by simp
  have b: "size_erow \<lparr>size_erow = 3, rsize = 0, chars = [CHR ''a'', TAB, CHR ''b''], render = []\<rparr> + count_tabs (chars \<lparr>size_erow = 3, rsize = 0, chars = [CHR ''a'', TAB, CHR ''b''], render = []\<rparr>) * (KILO_TAB_STOP - 1) + 1 \<le> INT_MAX"
    by (simp add: count_tabs_def TAB_def KILO_TAB_STOP_def INT_MAX_def)
  show ?thesis
    using a b cx_to_rx_at_size_is_rsize [OF a b] by auto
qed

end
